theory Spec2Isabelle
  imports Main
begin

unbundle bit_operations_syntax

section \<open>The lock table of kernel/peterson.c\<close>

text \<open>
  \<^verbatim>\<open>#define NPETERSONLOCKS 16\<close> (kernel/peterson.h). Handles, roles and return values are
  C \<^verbatim>\<open>int\<close>s; no arithmetic on them in this code can leave the 32-bit range, so they
  are modelled as \<^typ>\<open>int\<close>. The system calls return \<^verbatim>\<open>uint64\<close>, which the user-side
  prototypes read back as \<^verbatim>\<open>int\<close>: the model gives the value the caller tests.
\<close>

definition NPETERSONLOCKS :: int where
  "NPETERSONLOCKS = 16"

text \<open>
  \<^verbatim>\<open>struct peterson_lock\<close>. The spinlock field \<^verbatim>\<open>lk\<close> is taken and given back inside
  every system call, so it is free whenever a call returns or yields; it is a field of
  the interleaving model further down, where two contexts compete for it.
\<close>

record peterson_lock =
  name :: string
  active :: int
  flag :: "int list"
  turn :: int

type_synonym ptable = "peterson_lock list"

text \<open>The table \<^verbatim>\<open>ptable[NPETERSONLOCKS]\<close> after \<^verbatim>\<open>peterson_init\<close>.\<close>

definition peterson_init :: ptable where
  "peterson_init =
     replicate (nat NPETERSONLOCKS)
       \<lparr>name = ''unnamed_peterson'', active = 0, flag = [0, 0], turn = 0\<rparr>"

text \<open>A table has 16 entries and every \<^verbatim>\<open>flag\<close> array has two cells.\<close>

definition wf_ptable :: "ptable \<Rightarrow> bool" where
  "wf_ptable pt \<longleftrightarrow>
     int (length pt) = NPETERSONLOCKS \<and> (\<forall>s \<in> set pt. length (flag s) = 2)"

text \<open>
  \<^verbatim>\<open>peterson_alloc\<close>: the loop \<^verbatim>\<open>for(int i = 0; i < NPETERSONLOCKS; i++)\<close>, entered at
  index \<open>i\<close>. The result is the returned id and the table.
\<close>

function peterson_alloc_from :: "int \<Rightarrow> ptable \<Rightarrow> int \<times> ptable" where
  "peterson_alloc_from i pt =
     (if i < NPETERSONLOCKS then
        (if active (pt ! nat i) = 0 then
           (i, pt[nat i := (pt ! nat i)
                  \<lparr>active := 1,
                   flag := (flag (pt ! nat i))[0 := 0, 1 := 0],
                   turn := 0,
                   name := ''peterson_lock''\<rparr>])
         else peterson_alloc_from (i + 1) pt)
      else (- 1, pt))"
  by pat_completeness auto
termination
  by (relation "measure (\<lambda>(i, pt). nat (NPETERSONLOCKS - i))") auto

definition peterson_alloc :: "ptable \<Rightarrow> int \<times> ptable" where
  "peterson_alloc pt = peterson_alloc_from 0 pt"

text \<open>
  \<^verbatim>\<open>peterson_free\<close>: \<open>None\<close> is the \<^verbatim>\<open>panic\<close>.
\<close>

definition peterson_free :: "int \<Rightarrow> ptable \<Rightarrow> ptable option" where
  "peterson_free lid pt =
     (if lid < 0 \<or> lid \<ge> NPETERSONLOCKS \<or> active (pt ! nat lid) = 0 then None
      else Some (pt[nat lid := (pt ! nat lid)
                   \<lparr>active := 0,
                    flag := (flag (pt ! nat lid))[0 := 0, 1 := 0],
                    turn := 0,
                    name := ''unnamed_peterson''\<rparr>]))"

text \<open>
  \<^verbatim>\<open>sys_peterson_create\<close>: the allocation runs under \<^verbatim>\<open>ptable_lock\<close>, which is free
  again when the call returns.
\<close>

definition sys_peterson_create :: "ptable \<Rightarrow> int \<times> ptable" where
  "sys_peterson_create pt = peterson_alloc pt"

text \<open>
  \<^verbatim>\<open>sys_peterson_release\<close>.
\<close>

definition sys_peterson_release :: "int \<Rightarrow> int \<Rightarrow> ptable \<Rightarrow> int \<times> ptable" where
  "sys_peterson_release lock_id role pt =
     (if lock_id < 0 \<or> lock_id \<ge> NPETERSONLOCKS \<or> (role \<noteq> 0 \<and> role \<noteq> 1) then (- 1, pt)
      else if active (pt ! nat lock_id) = 0 then (- 1, pt)
      else (0, pt[nat lock_id := (pt ! nat lock_id)
                   \<lparr>flag := (flag (pt ! nat lock_id))[nat role := 0]\<rparr>]))"

text \<open>
  \<^verbatim>\<open>sys_peterson_destroy\<close>: \<open>None\<close> is a kernel panic raised by \<^verbatim>\<open>peterson_free\<close>.
\<close>

definition sys_peterson_destroy :: "int \<Rightarrow> ptable \<Rightarrow> (int \<times> ptable) option" where
  "sys_peterson_destroy lock_id pt =
     (if lock_id < 0 \<or> lock_id \<ge> NPETERSONLOCKS then Some (- 1, pt)
      else if active (pt ! nat lock_id) = 0 then Some (- 1, pt)
      else (case peterson_free lock_id pt of
              None \<Rightarrow> None
            | Some pt' \<Rightarrow> Some (0, pt')))"


text \<open>
  \<^verbatim>\<open>sys_peterson_acquire\<close>. The call gives up the processor at \<^verbatim>\<open>yield()\<close> with the
  slot's spinlock released; what the other contexts do to the table until the caller
  runs again is the next element of \<open>ys\<close>, a table transformer. The wait loop is entered
  with the yields still to come; \<open>None\<close> means that the caller is still waiting when
  they are used up. A result carries the return value, the yields not consumed and
  the table.
\<close>

type_synonym interference = "ptable \<Rightarrow> ptable"

fun acquire_wait ::
  "int \<Rightarrow> int \<Rightarrow> interference list \<Rightarrow> ptable \<Rightarrow> (int \<times> interference list \<times> ptable) option"
where
  "acquire_wait lock_id role ys pt =
     (if flag (pt ! nat lock_id) ! nat (1 - role) = 1 \<and> turn (pt ! nat lock_id) = 1 - role then
        (if active (pt ! nat lock_id) = 0 then Some (- 1, ys, pt)
         else (case ys of
                 [] \<Rightarrow> None
               | y # ys' \<Rightarrow> acquire_wait lock_id role ys' (y pt)))
      else if active (pt ! nat lock_id) = 0 then Some (- 1, ys, pt)
      else Some (0, ys, pt))"

definition sys_peterson_acquire ::
  "int \<Rightarrow> int \<Rightarrow> interference list \<Rightarrow> ptable \<Rightarrow> (int \<times> interference list \<times> ptable) option"
where
  "sys_peterson_acquire lock_id role ys pt =
     (if lock_id < 0 \<or> lock_id \<ge> NPETERSONLOCKS \<or> (role \<noteq> 0 \<and> role \<noteq> 1) then Some (- 1, ys, pt)
      else if active (pt ! nat lock_id) = 0 then Some (- 1, ys, pt)
      else
        (let pt1 = pt[nat lock_id := (pt ! nat lock_id)
                       \<lparr>flag := (flag (pt ! nat lock_id))[nat role := 1]\<rparr>];
             pt2 = pt1[nat lock_id := (pt1 ! nat lock_id)\<lparr>turn := 1 - role\<rparr>]
         in acquire_wait lock_id role ys pt2))"

section \<open>Sequences of creations and the free slots\<close>

text \<open>A number of \<^verbatim>\<open>peterson_create()\<close> calls in a row, with the ids they return.\<close>

fun create_seq :: "nat \<Rightarrow> ptable \<Rightarrow> int list \<times> ptable" where
  "create_seq 0 pt = ([], pt)"
| "create_seq (Suc n) pt =
     (case create_seq n pt of (ids, pt') \<Rightarrow>
        (case sys_peterson_create pt' of (lid, pt'') \<Rightarrow> (ids @ [lid], pt'')))"

text \<open>The number of table entries that are not allocated.\<close>

definition free_count :: "ptable \<Rightarrow> nat" where
  "free_count pt = length (filter (\<lambda>s. active s = 0) pt)"

section \<open>The tournament library (user/libtournament.c)\<close>

text \<open>
  The library's global variables. \<^verbatim>\<open>peterson_lock_ids_array\<close> is a pointer: \<open>None\<close> is
  the null pointer, \<open>Some a\<close> a block holding the cells \<open>a\<close>.
\<close>

record tournament =
  peterson_lock_ids_array :: "int list option"
  num_total_locks :: int
  N_processes :: int
  L_levels :: int
  my_id :: int

definition tournament_globals :: tournament where
  "tournament_globals =
     \<lparr>peterson_lock_ids_array = None, num_total_locks = 0, N_processes = 0,
      L_levels = 0, my_id = - 1\<rparr>"

text \<open>
  \<^verbatim>\<open>get_log2_if_power_of_2\<close>; the \<^verbatim>\<open>while (temp > 1)\<close> loop is \<open>log2_loop\<close>.
\<close>

function log2_loop :: "int \<Rightarrow> int \<Rightarrow> int" where
  "log2_loop temp log_val =
     (if temp > 1 then log2_loop (drop_bit 1 temp) (log_val + 1) else log_val)"
  by pat_completeness auto
termination
  by (relation "measure (\<lambda>(temp, log_val). nat temp)") (auto simp: drop_bit_eq_div)

definition get_log2_if_power_of_2 :: "int \<Rightarrow> int" where
  "get_log2_if_power_of_2 n =
     (if n \<le> 0 then - 1
      else if n = 1 then 0
      else if n AND (n - 1) \<noteq> 0 then - 1
      else log2_loop n 0)"

text \<open>
  The library reaches the kernel through the system calls \<^verbatim>\<open>peterson_create\<close>,
  \<^verbatim>\<open>peterson_acquire\<close> and \<^verbatim>\<open>peterson_release\<close>; the library functions take them as
  arguments, acting on a state \<open>'w\<close> of the world outside the process. An acquire call
  that does not return is \<open>None\<close>.

  The allocation loop of \<^verbatim>\<open>tournament_create\<close>, entered at index \<open>i\<close> with the block
  \<open>arr\<close>: the status is \<open>- 1\<close> when a \<^verbatim>\<open>peterson_create()\<close> failed and \<open>0\<close> when the loop
  ran to its end.
\<close>

function create_locks ::
  "('w \<Rightarrow> int \<times> 'w) \<Rightarrow> int \<Rightarrow> int \<Rightarrow> int list \<Rightarrow> 'w \<Rightarrow> int \<times> int list \<times> 'w"
where
  "create_locks peterson_create n i arr w =
     (if i < n then
        (case peterson_create w of (lid, w') \<Rightarrow>
           (if lid < 0 then (- 1, arr[nat i := lid], w')
            else create_locks peterson_create n (i + 1) (arr[nat i := lid]) w'))
      else (0, arr, w))"
  by pat_completeness auto
termination
  by (relation "measure (\<lambda>(c, n, i, arr, w). nat (n - i))") auto

text \<open>
  The \<^verbatim>\<open>fork()\<close> loop of \<^verbatim>\<open>tournament_create\<close>, as the process that is followed sees
  it: \<open>fork_ret i\<close> is what the \<^verbatim>\<open>fork()\<close> of iteration \<open>i\<close> returns to it (negative on
  failure, \<open>0\<close> in the new child, the child's pid in the parent).
\<close>

function fork_children :: "(int \<Rightarrow> int) \<Rightarrow> int \<Rightarrow> tournament \<Rightarrow> int \<times> tournament" where
  "fork_children fork_ret i ts =
     (if i < N_processes ts then
        (let pid = fork_ret i in
           if pid < 0 then (- 1, ts)
           else if pid = 0 then (i, ts\<lparr>my_id := i\<rparr>)
           else fork_children fork_ret (i + 1) ts)
      else (my_id ts, ts))"
  by pat_completeness auto
termination
  by (relation "measure (\<lambda>(f, i, ts). nat (N_processes ts - i))") auto

text \<open>
  \<^verbatim>\<open>tournament_create\<close>. \<open>malloc_ok\<close> tells whether \<^verbatim>\<open>malloc\<close> finds memory; the cells of
  a fresh block are indeterminate in C and \<open>0\<close> here (the loop writes a cell before
  anything reads it).
\<close>

definition tournament_create ::
  "('w \<Rightarrow> int \<times> 'w) \<Rightarrow> bool \<Rightarrow> (int \<Rightarrow> int) \<Rightarrow> int \<Rightarrow> tournament \<Rightarrow> 'w
     \<Rightarrow> int \<times> tournament \<times> 'w"
where
  "tournament_create peterson_create malloc_ok fork_ret processes ts w =
     (if processes > 16 then (- 1, ts, w)
      else
        (let temp_L_levels = get_log2_if_power_of_2 processes in
         if temp_L_levels = - 1 then (- 1, ts, w)
         else
           (let ts1 = ts\<lparr>L_levels := temp_L_levels, N_processes := processes,
                         num_total_locks := processes - 1\<rparr>
            in if num_total_locks ts1 > 0 then
                 (if \<not> malloc_ok then (- 1, ts1\<lparr>peterson_lock_ids_array := None\<rparr>, w)
                  else
                    (case create_locks peterson_create (num_total_locks ts1) 0
                            (replicate (nat (num_total_locks ts1)) 0) w of
                       (st, arr, w') \<Rightarrow>
                         (if st < 0 then (- 1, ts1\<lparr>peterson_lock_ids_array := Some arr\<rparr>, w')
                          else
                            (case fork_children fork_ret 1
                                    (ts1\<lparr>peterson_lock_ids_array := Some arr, my_id := 0\<rparr>) of
                               (r, ts2) \<Rightarrow> (r, ts2, w')))))
               else
                 (case fork_children fork_ret 1
                         (ts1\<lparr>peterson_lock_ids_array := None, my_id := 0\<rparr>) of
                    (r, ts2) \<Rightarrow> (r, ts2, w)))))"

text \<open>
  Reading \<^verbatim>\<open>peterson_lock_ids_array[array_idx]\<close>: through the null pointer or outside
  the block there is no defined value (\<open>None\<close>).
\<close>

definition read_lock_id :: "tournament \<Rightarrow> int \<Rightarrow> int option" where
  "read_lock_id ts array_idx =
     (case peterson_lock_ids_array ts of
        None \<Rightarrow> None
      | Some a \<Rightarrow> if 0 \<le> array_idx \<and> nat array_idx < length a then Some (a ! nat array_idx)
                  else None)"

text \<open>
  The loop of \<^verbatim>\<open>tournament_acquire\<close>, \<^verbatim>\<open>for (int l = L_levels - 1; l >= 0; l--)\<close>, entered
  at level \<open>l\<close>. \<^verbatim>\<open>>>\<close> is \<open>drop_bit\<close> and \<^verbatim>\<open>1 << l\<close> is \<open>push_bit l 1\<close>; the shift counts
  here are never negative. The loop has no result (\<open>None\<close>) when a \<^verbatim>\<open>peterson_acquire\<close>
  does not return or when the read of the lock id has no defined value.
\<close>

function acquire_levels ::
  "(int \<Rightarrow> int \<Rightarrow> 'w \<Rightarrow> (int \<times> 'w) option) \<Rightarrow> tournament \<Rightarrow> int \<Rightarrow> 'w \<Rightarrow> (int \<times> 'w) option"
where
  "acquire_levels peterson_acquire ts l w =
     (if l \<ge> 0 then
        (let role_bit_position = L_levels ts - 1 - l;
             role_at_level = drop_bit (nat role_bit_position) (my_id ts) AND 1;
             lock_group_shift = L_levels ts - l;
             lock_idx_within_level = drop_bit (nat lock_group_shift) (my_id ts);
             offset_for_level_nodes = push_bit (nat l) 1 - 1;
             array_idx = lock_idx_within_level + offset_for_level_nodes
         in if array_idx < 0 \<or> array_idx \<ge> num_total_locks ts then Some (- 1, w)
            else
              (case read_lock_id ts array_idx of
                 None \<Rightarrow> None
               | Some lock_id_to_acquire \<Rightarrow>
                   (case peterson_acquire lock_id_to_acquire role_at_level w of
                      None \<Rightarrow> None
                    | Some (r, w') \<Rightarrow>
                        if r < 0 then Some (- 1, w')
                        else acquire_levels peterson_acquire ts (l - 1) w')))
      else Some (0, w))"
  by pat_completeness auto
termination
  by (relation "measure (\<lambda>(a, ts, l, w). nat (l + 1))") auto

definition tournament_acquire ::
  "(int \<Rightarrow> int \<Rightarrow> 'w \<Rightarrow> (int \<times> 'w) option) \<Rightarrow> tournament \<Rightarrow> 'w \<Rightarrow> (int \<times> 'w) option"
where
  "tournament_acquire peterson_acquire ts w =
     (if my_id ts = - 1 then Some (- 1, w)
      else if N_processes ts \<le> 0 then Some (- 1, w)
      else if N_processes ts = 1 then Some (0, w)
      else if num_total_locks ts > 0 \<and> peterson_lock_ids_array ts = None then Some (- 1, w)
      else acquire_levels peterson_acquire ts (L_levels ts - 1) w)"

text \<open>
  The loop of \<^verbatim>\<open>tournament_release\<close>, \<^verbatim>\<open>for (int l = 0; l < L_levels; l++)\<close>, entered at
  level \<open>l\<close>.
\<close>

function release_levels ::
  "(int \<Rightarrow> int \<Rightarrow> 'w \<Rightarrow> int \<times> 'w) \<Rightarrow> tournament \<Rightarrow> int \<Rightarrow> 'w \<Rightarrow> (int \<times> 'w) option"
where
  "release_levels peterson_release ts l w =
     (if l < L_levels ts then
        (let role_bit_position = L_levels ts - 1 - l;
             role_at_level = drop_bit (nat role_bit_position) (my_id ts) AND 1;
             lock_group_shift = L_levels ts - l;
             lock_idx_within_level = drop_bit (nat lock_group_shift) (my_id ts);
             offset_for_level_nodes = push_bit (nat l) 1 - 1;
             array_idx = lock_idx_within_level + offset_for_level_nodes
         in if array_idx < 0 \<or> array_idx \<ge> num_total_locks ts then Some (- 1, w)
            else
              (case read_lock_id ts array_idx of
                 None \<Rightarrow> None
               | Some lock_id_to_release \<Rightarrow>
                   (case peterson_release lock_id_to_release role_at_level w of
                      (r, w') \<Rightarrow>
                        if r < 0 then Some (- 1, w')
                        else release_levels peterson_release ts (l + 1) w')))
      else Some (0, w))"
  by pat_completeness auto
termination
  by (relation "measure (\<lambda>(a, ts, l, w). nat (L_levels ts - l))") auto

definition tournament_release ::
  "(int \<Rightarrow> int \<Rightarrow> 'w \<Rightarrow> int \<times> 'w) \<Rightarrow> tournament \<Rightarrow> 'w \<Rightarrow> (int \<times> 'w) option"
where
  "tournament_release peterson_release ts w =
     (if my_id ts = - 1 then Some (- 1, w)
      else if N_processes ts \<le> 0 then Some (- 1, w)
      else if N_processes ts = 1 then Some (0, w)
      else if num_total_locks ts > 0 \<and> peterson_lock_ids_array ts = None then Some (- 1, w)
      else release_levels peterson_release ts 0 w)"


section \<open>Two contexts on one lock, statement by statement\<close>

text \<open>
  Two execution contexts use the same lock id, one with role 0 and one with role 1, as
  parent and child do in user/ptest.c: each repeats \<^verbatim>\<open>peterson_acquire\<close>, its critical
  section, \<^verbatim>\<open>peterson_release\<close>, and stops when a call returns \<open>- 1\<close>. A context is at one
  of the following places of kernel/peterson.c; a step executes the statement there.
  The scheduler may switch between the contexts after any step. Steps act on one shared
  memory in the order they are taken: the code reads and writes the slot only while it
  holds the slot's spinlock, and follows each write with \<^verbatim>\<open>__sync_synchronize()\<close>. No
  third context creates or destroys locks meanwhile.
\<close>

datatype ctx = Ctx0 | Ctx1

fun role_of :: "ctx \<Rightarrow> int" where
  "role_of Ctx0 = 0"
| "role_of Ctx1 = 1"

datatype pc =
    Idle            \<comment> \<open>user code, about to call \<^verbatim>\<open>peterson_acquire\<close>\<close>
  | AcqLock         \<comment> \<open>\<^verbatim>\<open>acquire(&pl->lk)\<close> on entry\<close>
  | AcqActive       \<comment> \<open>\<^verbatim>\<open>if (!pl->active)\<close> on entry\<close>
  | AcqFlag         \<comment> \<open>\<^verbatim>\<open>pl->flag[role] = 1\<close>\<close>
  | AcqTurn         \<comment> \<open>\<^verbatim>\<open>pl->turn = 1 - role\<close>\<close>
  | AcqWhile        \<comment> \<open>the condition of the \<^verbatim>\<open>while\<close>\<close>
  | AcqLoopActive   \<comment> \<open>\<^verbatim>\<open>if (!pl->active)\<close> in the loop body\<close>
  | AcqLoopUnlock   \<comment> \<open>\<^verbatim>\<open>release(&pl->lk)\<close> before the yield\<close>
  | AcqYield        \<comment> \<open>\<^verbatim>\<open>yield()\<close>\<close>
  | AcqRelock       \<comment> \<open>\<^verbatim>\<open>acquire(&pl->lk)\<close> after the yield\<close>
  | AcqFinal        \<comment> \<open>\<^verbatim>\<open>if (!pl->active)\<close> after the loop\<close>
  | AcqUnlockOk     \<comment> \<open>\<^verbatim>\<open>release(&pl->lk); return 0\<close>\<close>
  | AcqUnlockErr    \<comment> \<open>\<^verbatim>\<open>release(&pl->lk); return -1\<close>\<close>
  | Critical        \<comment> \<open>user code after a successful acquire, about to call \<^verbatim>\<open>peterson_release\<close>\<close>
  | RelLock         \<comment> \<open>\<^verbatim>\<open>acquire(&pl->lk)\<close> in release\<close>
  | RelActive       \<comment> \<open>\<^verbatim>\<open>if (!pl->active)\<close> in release\<close>
  | RelFlag         \<comment> \<open>\<^verbatim>\<open>pl->flag[role] = 0\<close>\<close>
  | RelUnlockOk     \<comment> \<open>\<^verbatim>\<open>release(&pl->lk); return 0\<close> in release\<close>
  | RelUnlockErr    \<comment> \<open>\<^verbatim>\<open>release(&pl->lk); return -1\<close> in release\<close>
  | Stopped         \<comment> \<open>a call has returned \<open>- 1\<close>\<close>

text \<open>
  The shared table, the spinlock \<^verbatim>\<open>lk\<close> of the slot both contexts use (\<open>True\<close>: held),
  and the place of each context.
\<close>

record sys_state =
  table :: ptable
  lk :: bool
  pcs :: "ctx \<Rightarrow> pc"

definition goto :: "ctx \<Rightarrow> pc \<Rightarrow> sys_state \<Rightarrow> sys_state" where
  "goto c p s = s\<lparr>pcs := (pcs s)(c := p)\<rparr>"

text \<open>
  Modelled from the spec: the spinlock operations \<^verbatim>\<open>acquire\<close> and \<^verbatim>\<open>release\<close> and
  \<^verbatim>\<open>yield\<close> (kernel/spinlock.c and kernel/proc.c are not among the sources). The
  spinlock is the slot's exclusivity guard: \<^verbatim>\<open>acquire(&pl->lk)\<close> takes it when it is free
  and spins on a held one (the step changes nothing), \<^verbatim>\<open>release(&pl->lk)\<close> frees it;
  \<^verbatim>\<open>yield()\<close> gives up the processor and changes no data.

  One step of context \<open>c\<close> on lock \<open>h\<close>.
\<close>

definition ctx_step :: "int \<Rightarrow> ctx \<Rightarrow> sys_state \<Rightarrow> sys_state" where
  "ctx_step h c s =
     (let role = role_of c; pl = table s ! nat h in
      case pcs s c of
        Idle \<Rightarrow>
          if h < 0 \<or> h \<ge> NPETERSONLOCKS \<or> (role \<noteq> 0 \<and> role \<noteq> 1) then goto c Stopped s
          else goto c AcqLock s
      | AcqLock \<Rightarrow> if lk s then s else goto c AcqActive (s\<lparr>lk := True\<rparr>)
      | AcqActive \<Rightarrow> if active pl = 0 then goto c AcqUnlockErr s else goto c AcqFlag s
      | AcqFlag \<Rightarrow>
          goto c AcqTurn (s\<lparr>table := (table s)[nat h := pl\<lparr>flag := (flag pl)[nat role := 1]\<rparr>]\<rparr>)
      | AcqTurn \<Rightarrow>
          goto c AcqWhile (s\<lparr>table := (table s)[nat h := pl\<lparr>turn := 1 - role\<rparr>]\<rparr>)
      | AcqWhile \<Rightarrow>
          if flag pl ! nat (1 - role) = 1 \<and> turn pl = 1 - role then goto c AcqLoopActive s
          else goto c AcqFinal s
      | AcqLoopActive \<Rightarrow> if active pl = 0 then goto c AcqUnlockErr s else goto c AcqLoopUnlock s
      | AcqLoopUnlock \<Rightarrow> goto c AcqYield (s\<lparr>lk := False\<rparr>)
      | AcqYield \<Rightarrow> goto c AcqRelock s
      | AcqRelock \<Rightarrow> if lk s then s else goto c AcqWhile (s\<lparr>lk := True\<rparr>)
      | AcqFinal \<Rightarrow> if active pl = 0 then goto c AcqUnlockErr s else goto c AcqUnlockOk s
      | AcqUnlockOk \<Rightarrow> goto c Critical (s\<lparr>lk := False\<rparr>)
      | AcqUnlockErr \<Rightarrow> goto c Stopped (s\<lparr>lk := False\<rparr>)
      | Critical \<Rightarrow>
          if h < 0 \<or> h \<ge> NPETERSONLOCKS \<or> (role \<noteq> 0 \<and> role \<noteq> 1) then goto c Stopped s
          else goto c RelLock s
      | RelLock \<Rightarrow> if lk s then s else goto c RelActive (s\<lparr>lk := True\<rparr>)
      | RelActive \<Rightarrow> if active pl = 0 then goto c RelUnlockErr s else goto c RelFlag s
      | RelFlag \<Rightarrow>
          goto c RelUnlockOk (s\<lparr>table := (table s)[nat h := pl\<lparr>flag := (flag pl)[nat role := 0]\<rparr>]\<rparr>)
      | RelUnlockOk \<Rightarrow> goto c Idle (s\<lparr>lk := False\<rparr>)
      | RelUnlockErr \<Rightarrow> goto c Stopped (s\<lparr>lk := False\<rparr>)
      | Stopped \<Rightarrow> s)"

text \<open>A schedule names the context that takes each step.\<close>

fun run :: "int \<Rightarrow> ctx list \<Rightarrow> sys_state \<Rightarrow> sys_state" where
  "run h [] s = s"
| "run h (c # cs) s = run h cs (ctx_step h c s)"

definition start :: "ptable \<Rightarrow> sys_state" where
  "start pt = \<lparr>table = pt, lk = False, pcs = (\<lambda>c. Idle)\<rparr>"

text \<open>
  A context holds the lock from the moment it leaves the wait loop until its release
  clears its flag; the critical section lies in between.
\<close>

fun holds_lock :: "pc \<Rightarrow> bool" where
  "holds_lock AcqFinal = True"
| "holds_lock AcqUnlockOk = True"
| "holds_lock Critical = True"
| "holds_lock RelLock = True"
| "holds_lock RelActive = True"
| "holds_lock RelFlag = True"
| "holds_lock p = False"


section \<open>The acquire protocol in the words of the specification\<close>

text \<open>
  The wait condition of role \<open>role\<close> on lock \<open>h\<close>: the other role is interested and the
  turn is the other role's.
\<close>

definition wait_condition :: "int \<Rightarrow> int \<Rightarrow> ptable \<Rightarrow> bool" where
  "wait_condition h role pt \<longleftrightarrow>
     flag (pt ! nat h) ! nat (1 - role) = 1 \<and> turn (pt ! nat h) = 1 - role"

text \<open>The table after \<open>interest[role] = true\<close> and then \<open>turn = 1 - role\<close> on lock \<open>h\<close>.\<close>

definition announce :: "int \<Rightarrow> int \<Rightarrow> ptable \<Rightarrow> ptable" where
  "announce h role pt =
     pt[nat h := (pt ! nat h)\<lparr>flag := (flag (pt ! nat h))[nat role := 1], turn := 1 - role\<rparr>]"

text \<open>
  The table that the \<open>k\<close>-th recheck sees when the wait starts on \<open>pt\<close>: the first \<open>k\<close>
  interferences have happened, one during each yield.
\<close>

definition recheck_table :: "interference list \<Rightarrow> ptable \<Rightarrow> nat \<Rightarrow> ptable" where
  "recheck_table ys pt k = fold (\<lambda>y p. y p) (take k ys) pt"

section \<open>The tree traversal in the words of the specification\<close>

text \<open>
  A list of (lock id, role) pairs acquired in order: the first call that fails ends the
  traversal with \<open>- 1\<close>.
\<close>

fun acquire_calls ::
  "(int \<Rightarrow> int \<Rightarrow> 'w \<Rightarrow> (int \<times> 'w) option) \<Rightarrow> (int \<times> int) list \<Rightarrow> 'w \<Rightarrow> (int \<times> 'w) option"
where
  "acquire_calls peterson_acquire [] w = Some (0, w)"
| "acquire_calls peterson_acquire ((lid, role) # cs) w =
     (case peterson_acquire lid role w of
        None \<Rightarrow> None
      | Some (r, w') \<Rightarrow>
          if r < 0 then Some (- 1, w') else acquire_calls peterson_acquire cs w')"

fun release_calls ::
  "(int \<Rightarrow> int \<Rightarrow> 'w \<Rightarrow> int \<times> 'w) \<Rightarrow> (int \<times> int) list \<Rightarrow> 'w \<Rightarrow> (int \<times> 'w) option"
where
  "release_calls peterson_release [] w = Some (0, w)"
| "release_calls peterson_release ((lid, role) # cs) w =
     (case peterson_release lid role w of
        (r, w') \<Rightarrow>
          if r < 0 then Some (- 1, w') else release_calls peterson_release cs w')"

text \<open>
  The role and the position in the lock-id array that the specification gives for tree
  level \<open>l\<close> (root 0): bit \<open>L - 1 - l\<close> of the participant's id, and the group
  \<open>self_id >> (L - l)\<close> plus the \<open>2 ^ l - 1\<close> nodes of the levels above.
\<close>

definition role_at :: "tournament \<Rightarrow> int \<Rightarrow> int" where
  "role_at ts l = of_bool (bit (my_id ts) (nat (L_levels ts - 1 - l)))"

definition array_index :: "tournament \<Rightarrow> int \<Rightarrow> int" where
  "array_index ts l = my_id ts div 2 ^ nat (L_levels ts - l) + (2 ^ nat l - 1)"

text \<open>
  System calls that always succeed and write down their arguments: the world is the
  list of the calls made so far.
\<close>

definition log_acquire :: "int \<Rightarrow> int \<Rightarrow> (int \<times> int) list \<Rightarrow> (int \<times> (int \<times> int) list) option" where
  "log_acquire lid role calls = Some (0, calls @ [(lid, role)])"

definition log_release :: "int \<Rightarrow> int \<Rightarrow> (int \<times> int) list \<Rightarrow> int \<times> (int \<times> int) list" where
  "log_release lid role calls = (0, calls @ [(lid, role)])"

text \<open>
  The globals of a participant of a tournament of \<open>N\<close> processes, \<open>N\<close> a power of two
  from 2 to 16: what \<^verbatim>\<open>tournament_create\<close> leaves when it succeeds.
\<close>

definition created :: "tournament \<Rightarrow> bool" where
  "created ts \<longleftrightarrow>
     2 \<le> N_processes ts \<and> N_processes ts \<le> 16
   \<and> get_log2_if_power_of_2 (N_processes ts) \<noteq> - 1
   \<and> L_levels ts = get_log2_if_power_of_2 (N_processes ts)
   \<and> num_total_locks ts = N_processes ts - 1
   \<and> (case peterson_lock_ids_array ts of
         None \<Rightarrow> False
       | Some a \<Rightarrow> int (length a) = N_processes ts - 1)
   \<and> 0 \<le> my_id ts \<and> my_id ts < N_processes ts"

text \<open>
  Participant \<open>k\<close> of the tournament that \<^verbatim>\<open>tournament_create(n)\<close> builds on the table
  left by \<^verbatim>\<open>peterson_init\<close>: every \<^verbatim>\<open>fork()\<close> succeeds, and the process followed is the
  child of the \<open>k\<close>-th one (the initial process for \<open>k = 0\<close>).
\<close>

definition participant :: "int \<Rightarrow> int \<Rightarrow> tournament" where
  "participant n k =
     fst (snd (tournament_create sys_peterson_create True (\<lambda>i. if i = k then 0 else 1) n
                 tournament_globals peterson_init))"

section \<open>A full table and a parent process\<close>

text \<open>
  The table after 16 successful \<^verbatim>\<open>peterson_create()\<close> calls on the initial one, and a
  process for which every \<^verbatim>\<open>fork()\<close> returns a child's pid.
\<close>

definition full_table :: ptable where
  "full_table = snd (create_seq 16 peterson_init)"

definition parent_forks :: "int \<Rightarrow> int" where
  "parent_forks i = 1"

section \<open>The invariant of the two contexts\<close>

text \<open>
  Places between the write \<^verbatim>\<open>flag[role] = 1\<close> and the write \<^verbatim>\<open>flag[role] = 0\<close>, and among
  them the places after the write of \<^verbatim>\<open>turn\<close>.
\<close>

fun flag_raised :: "pc \<Rightarrow> bool" where
  "flag_raised Idle = False"
| "flag_raised AcqLock = False"
| "flag_raised AcqActive = False"
| "flag_raised AcqFlag = False"
| "flag_raised AcqUnlockErr = False"
| "flag_raised RelUnlockOk = False"
| "flag_raised RelUnlockErr = False"
| "flag_raised Stopped = False"
| "flag_raised p = True"

fun contending :: "pc \<Rightarrow> bool" where
  "contending AcqTurn = False"
| "contending p = flag_raised p"

text \<open>
  What holds in every state the two contexts can reach on lock \<open>h\<close>: the table is well
  formed; a context inside a call has passed the check of \<open>h\<close>; a raised flag is 1;
  once a context has written the turn it is 0 or 1; and when one context holds the lock
  while the other has written the turn, the turn is the holder's role.
\<close>

definition peterson_inv :: "int \<Rightarrow> sys_state \<Rightarrow> bool" where
  "peterson_inv h s \<longleftrightarrow>
     wf_ptable (table s)
   \<and> ((pcs s Ctx0 \<noteq> Idle \<and> pcs s Ctx0 \<noteq> Stopped) \<or> (pcs s Ctx1 \<noteq> Idle \<and> pcs s Ctx1 \<noteq> Stopped)
        \<longrightarrow> 0 \<le> h \<and> h < NPETERSONLOCKS)
   \<and> (flag_raised (pcs s Ctx0) \<longrightarrow> flag (table s ! nat h) ! 0 = 1)
   \<and> (flag_raised (pcs s Ctx1) \<longrightarrow> flag (table s ! nat h) ! 1 = 1)
   \<and> (contending (pcs s Ctx0) \<or> contending (pcs s Ctx1) \<longrightarrow>
        turn (table s ! nat h) = 0 \<or> turn (table s ! nat h) = 1)
   \<and> (holds_lock (pcs s Ctx0) \<and> contending (pcs s Ctx1) \<longrightarrow> turn (table s ! nat h) = 0)
   \<and> (holds_lock (pcs s Ctx1) \<and> contending (pcs s Ctx0) \<longrightarrow> turn (table s ! nat h) = 1)"

section \<open>Allocation from the table\<close>

declare peterson_alloc_from.simps [simp del]

lemma flag_reset: "length fl = 2 \<Longrightarrow> fl[0 := 0, Suc 0 := (0::int)] = [0, 0]"
  by (cases fl; cases "tl fl"; auto)

lemma lock_all_fields:
  "(s::peterson_lock)\<lparr>active := a, flag := f, turn := t, name := n\<rparr> =
     \<lparr>name = n, active = a, flag = f, turn = t\<rparr>"
  by (cases s) simp

lemma alloc_from_none:
  "0 \<le> i \<Longrightarrow> \<forall>j. i \<le> j \<and> j < NPETERSONLOCKS \<longrightarrow> active (pt ! nat j) \<noteq> 0 \<Longrightarrow>
   peterson_alloc_from i pt = (- 1, pt)"
proof (induction i pt rule: peterson_alloc_from.induct)
  case (1 i pt)
  show ?case
  proof (cases "i < NPETERSONLOCKS")
    case True
    with "1.prems" have a: "active (pt ! nat i) \<noteq> 0" by simp
    have "peterson_alloc_from (i + 1) pt = (- 1, pt)"
      using "1.IH" True a "1.prems" by simp
    with True a show ?thesis by (subst peterson_alloc_from.simps) simp
  next
    case False
    then show ?thesis by (subst peterson_alloc_from.simps) simp
  qed
qed

lemma alloc_from_first:
  "0 \<le> i \<Longrightarrow> i \<le> k \<Longrightarrow> k < NPETERSONLOCKS \<Longrightarrow> active (pt ! nat k) = 0 \<Longrightarrow>
   \<forall>j. i \<le> j \<and> j < k \<longrightarrow> active (pt ! nat j) \<noteq> 0 \<Longrightarrow>
   peterson_alloc_from i pt =
     (k, pt[nat k := (pt ! nat k)
                  \<lparr>active := 1,
                   flag := (flag (pt ! nat k))[0 := 0, 1 := 0],
                   turn := 0,
                   name := ''peterson_lock''\<rparr>])"
proof (induction i pt rule: peterson_alloc_from.induct)
  case (1 i pt)
  show ?case
  proof (cases "i = k")
    case True
    with "1.prems" show ?thesis by (subst peterson_alloc_from.simps) simp
  next
    case False
    with "1.prems" have lt: "i < k" and a: "active (pt ! nat i) \<noteq> 0" by auto
    have "peterson_alloc_from (i + 1) pt = (k, pt[nat k := (pt ! nat k)
                  \<lparr>active := 1,
                   flag := (flag (pt ! nat k))[0 := 0, 1 := 0],
                   turn := 0,
                   name := ''peterson_lock''\<rparr>])"
      using "1.IH" lt a "1.prems" by simp
    with lt a "1.prems" show ?thesis by (subst peterson_alloc_from.simps) simp
  qed
qed


lemma alloc_cases:
  assumes "wf_ptable pt"
  shows "(peterson_alloc pt = (- 1, pt) \<and> (\<forall>j < length pt. active (pt ! j) \<noteq> 0))
       \<or> (\<exists>k < length pt. active (pt ! k) = 0 \<and> (\<forall>j < k. active (pt ! j) \<noteq> 0)
             \<and> peterson_alloc pt =
                 (int k, pt[k := \<lparr>name = ''peterson_lock'', active = 1,
                                   flag = [0, 0], turn = 0\<rparr>]))"
proof (cases "\<exists>k < length pt. active (pt ! k) = 0")
  case False
  have len: "int (length pt) = NPETERSONLOCKS" using assms by (simp add: wf_ptable_def)
  have "\<forall>j. 0 \<le> j \<and> j < NPETERSONLOCKS \<longrightarrow> active (pt ! nat j) \<noteq> 0"
    using False len by (metis nat_less_iff)
  then have "peterson_alloc pt = (- 1, pt)"
    unfolding peterson_alloc_def by (intro alloc_from_none) simp_all
  with False show ?thesis by simp
next
  case True
  define k where "k = (LEAST k. k < length pt \<and> active (pt ! k) = 0)"
  have k: "k < length pt \<and> active (pt ! k) = 0"
    unfolding k_def using True by (metis (mono_tags, lifting) LeastI_ex)
  have least: "\<forall>j < k. active (pt ! j) \<noteq> 0"
  proof (intro allI impI)
    fix j assume "j < k"
    then have "\<not> (j < length pt \<and> active (pt ! j) = 0)"
      unfolding k_def by (rule not_less_Least)
    with \<open>j < k\<close> k show "active (pt ! j) \<noteq> 0" by simp
  qed
  have len: "int (length pt) = NPETERSONLOCKS" using assms by (simp add: wf_ptable_def)
  have fl: "length (flag (pt ! k)) = 2"
    using assms k by (simp add: wf_ptable_def)
  have "peterson_alloc_from 0 pt =
     (int k, pt[nat (int k) := (pt ! nat (int k))
                  \<lparr>active := 1,
                   flag := (flag (pt ! nat (int k)))[0 := 0, 1 := 0],
                   turn := 0,
                   name := ''peterson_lock''\<rparr>])"
  proof (rule alloc_from_first)
    show "int k < NPETERSONLOCKS" using k len by simp
    show "active (pt ! nat (int k)) = 0" using k by simp
    show "\<forall>j. 0 \<le> j \<and> j < int k \<longrightarrow> active (pt ! nat j) \<noteq> 0"
      using least by (metis nat_less_iff)
  qed simp_all
  then have "peterson_alloc pt =
      (int k, pt[k := \<lparr>name = ''peterson_lock'', active = 1, flag = [0, 0], turn = 0\<rparr>])"
    by (simp add: peterson_alloc_def flag_reset [OF fl] lock_all_fields)
  with k least show ?thesis by blast
qed



lemma seq16: "create_seq 16 peterson_init =
     ([0, 1, 2, 3, 4, 5, 6, 7, 8, 9, 10, 11, 12, 13, 14, 15],
      replicate 16 \<lparr>name = ''peterson_lock'', active = 1, flag = [0, 0], turn = 0\<rparr>)"
    by (simp add: eval_nat_numeral peterson_init_def NPETERSONLOCKS_def
        sys_peterson_create_def peterson_alloc_def peterson_alloc_from.simps lock_all_fields)


lemma last16: "sys_peterson_create
       (replicate 16 \<lparr>name = ''peterson_lock'', active = 1, flag = [0, 0], turn = 0\<rparr>) =
     (- 1, replicate 16 \<lparr>name = ''peterson_lock'', active = 1, flag = [0, 0], turn = 0\<rparr>)"
  unfolding sys_peterson_create_def peterson_alloc_def
  by (rule alloc_from_none) (auto simp: NPETERSONLOCKS_def)



text \<open>
  C5. The table has 16 slots. \<^verbatim>\<open>peterson_create\<close> scans them in index order and returns
  the index of the first slot that is not active; that slot becomes active with both
  flags and the turn 0, and no other slot changes. It returns \<open>- 1\<close> exactly when all
  16 slots are active, and then the table is unchanged. On the table left by
  \<^verbatim>\<open>peterson_init\<close>, the first 16 calls return 0 to 15 and the 17th returns \<open>- 1\<close> and
  leaves the table as it is.
\<close>

theorem create_lock_first_free:
  assumes "wf_ptable pt" and "sys_peterson_create pt = (lid, pt')"
  shows "(lid = - 1 \<longleftrightarrow> (\<forall>j < length pt. active (pt ! j) \<noteq> 0))
       \<and> (lid = - 1 \<longrightarrow> pt' = pt)
       \<and> (lid \<noteq> - 1 \<longrightarrow>
            0 \<le> lid \<and> lid < NPETERSONLOCKS
          \<and> active (pt ! nat lid) = 0 \<and> (\<forall>j < nat lid. active (pt ! j) \<noteq> 0)
          \<and> active (pt' ! nat lid) = 1 \<and> flag (pt' ! nat lid) = [0, 0]
          \<and> turn (pt' ! nat lid) = 0
          \<and> length pt' = length pt \<and> (\<forall>j. j \<noteq> nat lid \<longrightarrow> pt' ! j = pt ! j))
       \<and> int (length peterson_init) = 16
       \<and> fst (create_seq 16 peterson_init) =
           [0, 1, 2, 3, 4, 5, 6, 7, 8, 9, 10, 11, 12, 13, 14, 15]
       \<and> sys_peterson_create (snd (create_seq 16 peterson_init)) =
           (- 1, snd (create_seq 16 peterson_init))"
proof -
  have len: "int (length pt) = NPETERSONLOCKS" using assms(1) by (simp add: wf_ptable_def)
  have run: "peterson_alloc pt = (lid, pt')" using assms(2) by (simp add: sys_peterson_create_def)
  have gen: "(lid = - 1 \<longleftrightarrow> (\<forall>j < length pt. active (pt ! j) \<noteq> 0))
       \<and> (lid = - 1 \<longrightarrow> pt' = pt)
       \<and> (lid \<noteq> - 1 \<longrightarrow>
            0 \<le> lid \<and> lid < NPETERSONLOCKS
          \<and> active (pt ! nat lid) = 0 \<and> (\<forall>j < nat lid. active (pt ! j) \<noteq> 0)
          \<and> active (pt' ! nat lid) = 1 \<and> flag (pt' ! nat lid) = [0, 0]
          \<and> turn (pt' ! nat lid) = 0
          \<and> length pt' = length pt \<and> (\<forall>j. j \<noteq> nat lid \<longrightarrow> pt' ! j = pt ! j))"
    using alloc_cases [OF assms(1)]
  proof (elim disjE conjE exE)
    assume "peterson_alloc pt = (- 1, pt)" and "\<forall>j<length pt. active (pt ! j) \<noteq> 0"
    with run show ?thesis by simp
  next
    fix k
    assume k: "k < length pt" "active (pt ! k) = 0" "\<forall>j<k. active (pt ! j) \<noteq> 0"
      and r: "peterson_alloc pt =
         (int k, pt[k := \<lparr>name = ''peterson_lock'', active = 1, flag = [0, 0], turn = 0\<rparr>])"
    from r run have lid: "lid = int k"
      and pt': "pt' = pt[k := \<lparr>name = ''peterson_lock'', active = 1, flag = [0, 0], turn = 0\<rparr>]"
      by simp_all
    have "\<exists>j<length pt. active (pt ! j) = 0" using k by blast
    moreover have "int k < NPETERSONLOCKS" using k len by simp
    ultimately show ?thesis using k by (simp add: lid pt')
  qed
  have init: "int (length peterson_init) = 16"
    by (simp add: peterson_init_def NPETERSONLOCKS_def)
  have rest: "fst (create_seq 16 peterson_init) =
           [0, 1, 2, 3, 4, 5, 6, 7, 8, 9, 10, 11, 12, 13, 14, 15]
       \<and> sys_peterson_create (snd (create_seq 16 peterson_init)) =
           (- 1, snd (create_seq 16 peterson_init))"
    unfolding seq16 fst_conv snd_conv last16 by simp
  from gen init rest show ?thesis by blast
qed

theorem create_lock_first_free_witness:
  "wf_ptable peterson_init
   \<and> sys_peterson_create peterson_init =
       (0, peterson_init[0 := \<lparr>name = ''peterson_lock'', active = 1, flag = [0, 0], turn = 0\<rparr>])
   \<and> active (peterson_init ! 0) = 0
   \<and> fst (create_seq 16 peterson_init) =
       [0, 1, 2, 3, 4, 5, 6, 7, 8, 9, 10, 11, 12, 13, 14, 15]"
proof -
  have h1: "wf_ptable peterson_init"
    by (simp add: wf_ptable_def peterson_init_def NPETERSONLOCKS_def)
  have h2: "sys_peterson_create peterson_init =
       (0, peterson_init[0 := \<lparr>name = ''peterson_lock'', active = 1, flag = [0, 0], turn = 0\<rparr>])"
    by (simp add: sys_peterson_create_def peterson_alloc_def peterson_alloc_from.simps
        peterson_init_def NPETERSONLOCKS_def lock_all_fields)
  show ?thesis using h1 h2 create_lock_first_free [OF h1 h2] by simp
qed

section \<open>Destroying and releasing\<close>

lemma wf_one_lock:
  "wf_ptable (peterson_init[0 := \<lparr>name = ''peterson_lock'', active = 1, flag = [0, 0], turn = 0\<rparr>])"
  by (auto simp: wf_ptable_def peterson_init_def NPETERSONLOCKS_def dest: set_update_subset_insert [THEN subsetD])

text \<open>
  C6. \<^verbatim>\<open>peterson_destroy(h)\<close> returns \<open>- 1\<close> and changes nothing when \<open>h\<close> is outside
  \<open>[0, 16)\<close> or the slot is already inactive. On an active slot it returns 0 (the
  \<^verbatim>\<open>panic\<close> of \<^verbatim>\<open>peterson_free\<close> is not reached) and leaves the slot inactive with flags
  \<open>[0, 0]\<close> and turn 0, as \<^verbatim>\<open>peterson_init\<close> left it, every other slot unchanged.
\<close>

theorem destroy_lock_resets_slot:
  assumes "wf_ptable pt"
  shows "(h < 0 \<or> h \<ge> NPETERSONLOCKS \<longrightarrow> sys_peterson_destroy h pt = Some (- 1, pt))
       \<and> (0 \<le> h \<and> h < NPETERSONLOCKS \<and> active (pt ! nat h) = 0 \<longrightarrow>
            sys_peterson_destroy h pt = Some (- 1, pt))
       \<and> (0 \<le> h \<and> h < NPETERSONLOCKS \<and> active (pt ! nat h) \<noteq> 0 \<longrightarrow>
            (\<exists>pt'. sys_peterson_destroy h pt = Some (0, pt')
               \<and> active (pt' ! nat h) = 0 \<and> flag (pt' ! nat h) = [0, 0]
               \<and> turn (pt' ! nat h) = 0
               \<and> pt' ! nat h = peterson_init ! nat h
               \<and> length pt' = length pt \<and> (\<forall>j. j \<noteq> nat h \<longrightarrow> pt' ! j = pt ! j)))"
proof -
  {
    assume "h < 0 \<or> h \<ge> NPETERSONLOCKS"
    then have "sys_peterson_destroy h pt = Some (- 1, pt)"
      by (auto simp: sys_peterson_destroy_def)
  }
  note rejected = this
  {
    assume "0 \<le> h \<and> h < NPETERSONLOCKS \<and> active (pt ! nat h) = 0"
    then have "sys_peterson_destroy h pt = Some (- 1, pt)"
      by (simp add: sys_peterson_destroy_def)
  }
  note inactive = this
  {
    assume a: "0 \<le> h \<and> h < NPETERSONLOCKS \<and> active (pt ! nat h) \<noteq> 0"
    have len: "int (length pt) = NPETERSONLOCKS" using assms by (simp add: wf_ptable_def)
    with a have inb: "nat h < length pt" by linarith
    then have fl: "length (flag (pt ! nat h)) = 2" using assms by (simp add: wf_ptable_def)
    let ?pt' = "pt[nat h := \<lparr>name = ''unnamed_peterson'', active = 0, flag = [0, 0], turn = 0\<rparr>]"
    have d: "sys_peterson_destroy h pt = Some (0, ?pt')"
      using a by (simp add: sys_peterson_destroy_def peterson_free_def flag_reset [OF fl]
          lock_all_fields)
    have i: "peterson_init ! nat h =
        \<lparr>name = ''unnamed_peterson'', active = 0, flag = [0, 0], turn = 0\<rparr>"
      using inb len by (simp add: peterson_init_def)
    have "\<exists>pt'. sys_peterson_destroy h pt = Some (0, pt')
                 \<and> active (pt' ! nat h) = 0 \<and> flag (pt' ! nat h) = [0, 0]
                 \<and> turn (pt' ! nat h) = 0
                 \<and> pt' ! nat h = peterson_init ! nat h
                 \<and> length pt' = length pt \<and> (\<forall>j. j \<noteq> nat h \<longrightarrow> pt' ! j = pt ! j)"
      using d inb i by (intro exI [of _ ?pt']) simp
  }
  note live = this
  from rejected inactive live show ?thesis by blast
qed

theorem destroy_lock_resets_slot_witness:
  "wf_ptable (peterson_init[0 := \<lparr>name = ''peterson_lock'', active = 1, flag = [0, 0], turn = 0\<rparr>])
   \<and> sys_peterson_destroy 0
        (peterson_init[0 := \<lparr>name = ''peterson_lock'', active = 1, flag = [0, 0], turn = 0\<rparr>]) =
       Some (0, peterson_init)
   \<and> sys_peterson_destroy 1
        (peterson_init[0 := \<lparr>name = ''peterson_lock'', active = 1, flag = [0, 0], turn = 0\<rparr>]) =
       Some (- 1, peterson_init[0 := \<lparr>name = ''peterson_lock'', active = 1, flag = [0, 0], turn = 0\<rparr>])
   \<and> sys_peterson_destroy 16
        (peterson_init[0 := \<lparr>name = ''peterson_lock'', active = 1, flag = [0, 0], turn = 0\<rparr>]) =
       Some (- 1, peterson_init[0 := \<lparr>name = ''peterson_lock'', active = 1, flag = [0, 0], turn = 0\<rparr>])"
  using wf_one_lock
    destroy_lock_resets_slot [OF wf_one_lock, of 0]
    destroy_lock_resets_slot [OF wf_one_lock, of 1]
    destroy_lock_resets_slot [OF wf_one_lock, of 16]
  by (simp add: peterson_init_def NPETERSONLOCKS_def eval_nat_numeral sys_peterson_destroy_def
      peterson_free_def lock_all_fields)

text \<open>
  C8. \<^verbatim>\<open>peterson_release(h, role)\<close> on an active slot, with \<open>h\<close> in \<open>[0, 16)\<close> and a role 0
  or 1, returns 0 and clears \<open>flag[role]\<close>; the other flag, the turn, the active mark and
  every other slot are unchanged. With a bad role, a handle out of range or an inactive
  slot it returns \<open>- 1\<close> and changes nothing. The call takes no yields: it is a total
  function of the table alone.
\<close>

theorem release_frame:
  assumes "wf_ptable pt"
  shows "(h < 0 \<or> h \<ge> NPETERSONLOCKS \<or> (role \<noteq> 0 \<and> role \<noteq> 1) \<longrightarrow>
            sys_peterson_release h role pt = (- 1, pt))
       \<and> (0 \<le> h \<and> h < NPETERSONLOCKS \<and> active (pt ! nat h) = 0 \<longrightarrow>
            sys_peterson_release h role pt = (- 1, pt))
       \<and> (0 \<le> h \<and> h < NPETERSONLOCKS \<and> (role = 0 \<or> role = 1) \<and> active (pt ! nat h) \<noteq> 0 \<longrightarrow>
            fst (sys_peterson_release h role pt) = 0
          \<and> flag (snd (sys_peterson_release h role pt) ! nat h) ! nat role = 0
          \<and> flag (snd (sys_peterson_release h role pt) ! nat h) ! nat (1 - role) =
              flag (pt ! nat h) ! nat (1 - role)
          \<and> length (flag (snd (sys_peterson_release h role pt) ! nat h)) = 2
          \<and> turn (snd (sys_peterson_release h role pt) ! nat h) = turn (pt ! nat h)
          \<and> active (snd (sys_peterson_release h role pt) ! nat h) = active (pt ! nat h)
          \<and> name (snd (sys_peterson_release h role pt) ! nat h) = name (pt ! nat h)
          \<and> length (snd (sys_peterson_release h role pt)) = length pt
          \<and> (\<forall>j. j \<noteq> nat h \<longrightarrow> snd (sys_peterson_release h role pt) ! j = pt ! j))"
proof -
  {
    assume "h < 0 \<or> h \<ge> NPETERSONLOCKS \<or> (role \<noteq> 0 \<and> role \<noteq> 1)"
    then have "sys_peterson_release h role pt = (- 1, pt)"
      by (auto simp: sys_peterson_release_def)
  }
  note rejected = this
  {
    assume "0 \<le> h \<and> h < NPETERSONLOCKS \<and> active (pt ! nat h) = 0"
    then have "sys_peterson_release h role pt = (- 1, pt)"
      by (simp add: sys_peterson_release_def)
  }
  note inactive = this
  {
    assume a: "0 \<le> h \<and> h < NPETERSONLOCKS \<and> (role = 0 \<or> role = 1) \<and> active (pt ! nat h) \<noteq> 0"
    have len: "int (length pt) = NPETERSONLOCKS" using assms by (simp add: wf_ptable_def)
    with a have inb: "nat h < length pt" by linarith
    then have fl: "length (flag (pt ! nat h)) = 2" using assms by (simp add: wf_ptable_def)
    have r: "sys_peterson_release h role pt =
        (0, pt[nat h := (pt ! nat h)\<lparr>flag := (flag (pt ! nat h))[nat role := 0]\<rparr>])"
      using a by (auto simp: sys_peterson_release_def)
    have "fst (sys_peterson_release h role pt) = 0
            \<and> flag (snd (sys_peterson_release h role pt) ! nat h) ! nat role = 0
            \<and> flag (snd (sys_peterson_release h role pt) ! nat h) ! nat (1 - role) =
                flag (pt ! nat h) ! nat (1 - role)
            \<and> length (flag (snd (sys_peterson_release h role pt) ! nat h)) = 2
            \<and> turn (snd (sys_peterson_release h role pt) ! nat h) = turn (pt ! nat h)
            \<and> active (snd (sys_peterson_release h role pt) ! nat h) = active (pt ! nat h)
            \<and> name (snd (sys_peterson_release h role pt) ! nat h) = name (pt ! nat h)
            \<and> length (snd (sys_peterson_release h role pt)) = length pt
            \<and> (\<forall>j. j \<noteq> nat h \<longrightarrow> snd (sys_peterson_release h role pt) ! j = pt ! j)"
      unfolding r using a inb fl by auto
  }
  note live = this
  from rejected inactive live show ?thesis by blast
qed

theorem release_frame_witness:
  "wf_ptable (peterson_init[0 := \<lparr>name = ''peterson_lock'', active = 1, flag = [0, 0], turn = 0\<rparr>])
   \<and> sys_peterson_release 0 1
        (peterson_init[0 := \<lparr>name = ''peterson_lock'', active = 1, flag = [0, 1], turn = 0\<rparr>]) =
       (0, peterson_init[0 := \<lparr>name = ''peterson_lock'', active = 1, flag = [0, 0], turn = 0\<rparr>])
   \<and> sys_peterson_release 0 2
        (peterson_init[0 := \<lparr>name = ''peterson_lock'', active = 1, flag = [0, 0], turn = 0\<rparr>]) =
       (- 1, peterson_init[0 := \<lparr>name = ''peterson_lock'', active = 1, flag = [0, 0], turn = 0\<rparr>])
   \<and> sys_peterson_release 1 0
        (peterson_init[0 := \<lparr>name = ''peterson_lock'', active = 1, flag = [0, 0], turn = 0\<rparr>]) =
       (- 1, peterson_init[0 := \<lparr>name = ''peterson_lock'', active = 1, flag = [0, 0], turn = 0\<rparr>])"
proof -
  have w: "wf_ptable
      (peterson_init[0 := \<lparr>name = ''peterson_lock'', active = 1, flag = [0, 1], turn = 0\<rparr>])"
    by (auto simp: wf_ptable_def peterson_init_def NPETERSONLOCKS_def
        dest: set_update_subset_insert [THEN subsetD])
  show ?thesis
    using wf_one_lock
      release_frame [OF w, of 0 1]
      release_frame [OF wf_one_lock, of 0 2]
      release_frame [OF wf_one_lock, of 1 0]
    by (simp add: peterson_init_def NPETERSONLOCKS_def eval_nat_numeral sys_peterson_release_def)
qed

section \<open>Acquiring\<close>

declare acquire_wait.simps [simp del]

lemma recheck_table_0: "recheck_table ys pt 0 = pt"
  by (simp add: recheck_table_def)

lemma recheck_table_Suc: "recheck_table (y # ys) pt (Suc k) = recheck_table ys (y pt) k"
  by (simp add: recheck_table_def)

lemma acquire_wait_stops:
  "k \<le> length ys \<Longrightarrow>
   \<forall>j < k. wait_condition h role (recheck_table ys pt j)
          \<and> active (recheck_table ys pt j ! nat h) \<noteq> 0 \<Longrightarrow>
   \<not> (wait_condition h role (recheck_table ys pt k)
          \<and> active (recheck_table ys pt k ! nat h) \<noteq> 0) \<Longrightarrow>
   acquire_wait h role ys pt =
     Some (if active (recheck_table ys pt k ! nat h) = 0 then - 1 else 0,
           drop k ys, recheck_table ys pt k)"
proof (induction k arbitrary: ys pt)
  case 0
  then show ?case
    by (subst acquire_wait.simps) (auto simp: recheck_table_0 wait_condition_def)
next
  case (Suc k)
  then obtain y ys' where ys: "ys = y # ys'" by (cases ys) auto
  from Suc.prems(2) have w0: "wait_condition h role pt \<and> active (pt ! nat h) \<noteq> 0"
    using recheck_table_0 [of ys pt] by (metis zero_less_Suc)
  have step: "acquire_wait h role ys pt = acquire_wait h role ys' (y pt)"
    using w0 by (subst acquire_wait.simps) (simp add: ys wait_condition_def)
  have "acquire_wait h role ys' (y pt) =
     Some (if active (recheck_table ys' (y pt) k ! nat h) = 0 then - 1 else 0,
           drop k ys', recheck_table ys' (y pt) k)"
  proof (rule Suc.IH)
    show "k \<le> length ys'" using Suc.prems(1) ys by simp
    show "\<forall>j<k. wait_condition h role (recheck_table ys' (y pt) j)
          \<and> active (recheck_table ys' (y pt) j ! nat h) \<noteq> 0"
      using Suc.prems(2) ys recheck_table_Suc by (metis Suc_less_eq)
    show "\<not> (wait_condition h role (recheck_table ys' (y pt) k)
          \<and> active (recheck_table ys' (y pt) k ! nat h) \<noteq> 0)"
      using Suc.prems(3) ys by (simp add: recheck_table_Suc)
  qed
  with step show ?case by (simp add: ys recheck_table_Suc)
qed

lemma acquire_wait_spins:
  "\<forall>j \<le> length ys. wait_condition h role (recheck_table ys pt j)
          \<and> active (recheck_table ys pt j ! nat h) \<noteq> 0 \<Longrightarrow>
   acquire_wait h role ys pt = None"
proof (induction ys arbitrary: pt)
  case Nil
  then show ?case
    by (subst acquire_wait.simps) (simp add: recheck_table_0 wait_condition_def)
next
  case (Cons y ys)
  from Cons.prems have w0: "wait_condition h role pt \<and> active (pt ! nat h) \<noteq> 0"
    using recheck_table_0 [of "y # ys" pt] by (metis le0)
  have step: "acquire_wait h role (y # ys) pt = acquire_wait h role ys (y pt)"
    using w0 by (subst acquire_wait.simps) (simp add: wait_condition_def)
  have "acquire_wait h role ys (y pt) = None"
  proof (rule Cons.IH, intro allI impI)
    fix j assume "j \<le> length ys"
    then have "Suc j \<le> length (y # ys)" by simp
    with Cons.prems
    have "wait_condition h role (recheck_table (y # ys) pt (Suc j))
          \<and> active (recheck_table (y # ys) pt (Suc j) ! nat h) \<noteq> 0" by blast
    then show "wait_condition h role (recheck_table ys (y pt) j)
          \<and> active (recheck_table ys (y pt) j ! nat h) \<noteq> 0"
      by (simp add: recheck_table_Suc)
  qed
  with step show ?case by simp
qed

lemma acquire_wait_ok:
  "acquire_wait h role ys pt = Some (0, ys', pt') \<Longrightarrow>
   active (pt' ! nat h) \<noteq> 0 \<and> \<not> wait_condition h role pt'"
proof (induction h role ys pt rule: acquire_wait.induct)
  case (1 lock_id role ys pt)
  show ?case
  proof (cases "wait_condition lock_id role pt \<and> active (pt ! nat lock_id) \<noteq> 0")
    case True
    show ?thesis
    proof (cases ys)
      case Nil
      with True "1.prems" show ?thesis
        by (subst (asm) acquire_wait.simps) (simp add: wait_condition_def)
    next
      case (Cons y ys1)
      with True "1.prems" have "acquire_wait lock_id role ys1 (y pt) = Some (0, ys', pt')"
        by (subst (asm) acquire_wait.simps) (simp add: wait_condition_def)
      with "1.IH" True Cons show ?thesis by (simp add: wait_condition_def)
    qed
  next
    case False
    with "1.prems" show ?thesis
      by (subst (asm) acquire_wait.simps) (auto simp: wait_condition_def split: if_splits)
  qed
qed

lemma acquire_enters_wait:
  assumes "wf_ptable pt" "0 \<le> h" "h < NPETERSONLOCKS" "role = 0 \<or> role = 1"
    "active (pt ! nat h) \<noteq> 0"
  shows "sys_peterson_acquire h role ys pt = acquire_wait h role ys (announce h role pt)"
proof -
  have len: "int (length pt) = NPETERSONLOCKS" using assms(1) by (simp add: wf_ptable_def)
  with assms have inb: "nat h < length pt" by linarith
  show ?thesis using assms inb
    by (auto simp: sys_peterson_acquire_def announce_def Let_def)
qed

lemma length_peterson_init: "length peterson_init = 16"
  by (simp add: peterson_init_def NPETERSONLOCKS_def)

lemma peterson_init_restore:
  "peterson_init[0 := \<lparr>name = ''unnamed_peterson'', active = 0, flag = [0, 0], turn = 0\<rparr>] =
     peterson_init"
  by (simp add: peterson_init_def NPETERSONLOCKS_def eval_nat_numeral)

lemma peterson_init_nth:
  "i < 16 \<Longrightarrow> peterson_init ! i =
     \<lparr>name = ''unnamed_peterson'', active = 0, flag = [0, 0], turn = 0\<rparr>"
  by (simp add: peterson_init_def NPETERSONLOCKS_def)

lemma wf_slot0:
  "length fl = 2 \<Longrightarrow>
   wf_ptable (peterson_init[0 := \<lparr>name = n, active = a, flag = fl, turn = t\<rparr>])"
  by (auto simp: wf_ptable_def peterson_init_def NPETERSONLOCKS_def
      dest: set_update_subset_insert [THEN subsetD])

text \<open>
  C2. \<^verbatim>\<open>peterson_acquire(h, role)\<close> with \<open>h\<close> outside \<open>[0, 16)\<close> or a role other than 0 and 1
  returns \<open>- 1\<close>, and so it does on an inactive slot; the table is unchanged in both
  cases. On an active slot it sets \<open>flag[role]\<close> to 1 and then \<open>turn\<close> to \<open>1 - role\<close>
  (\<open>announce\<close>) and checks the wait condition, yielding once between two checks: the
  call returns at the first check \<open>k\<close> that finds the slot inactive or the wait
  condition false, after exactly \<open>k\<close> yields, with \<open>- 1\<close> if the slot is inactive then and
  0 otherwise. While every check finds the slot active and the condition true, the call
  has not returned. A return value 0 is given only on a table whose slot is active and
  whose wait condition is false.
\<close>

theorem acquire_protocol:
  assumes "wf_ptable pt"
  shows "(h < 0 \<or> h \<ge> NPETERSONLOCKS \<or> (role \<noteq> 0 \<and> role \<noteq> 1) \<longrightarrow>
            sys_peterson_acquire h role ys pt = Some (- 1, ys, pt))
       \<and> (0 \<le> h \<and> h < NPETERSONLOCKS \<and> active (pt ! nat h) = 0 \<longrightarrow>
            sys_peterson_acquire h role ys pt = Some (- 1, ys, pt))
       \<and> (0 \<le> h \<and> h < NPETERSONLOCKS \<and> (role = 0 \<or> role = 1) \<and> active (pt ! nat h) \<noteq> 0 \<longrightarrow>
            (\<forall>k \<le> length ys.
               (\<forall>j < k. wait_condition h role (recheck_table ys (announce h role pt) j)
                      \<and> active (recheck_table ys (announce h role pt) j ! nat h) \<noteq> 0) \<and>
               \<not> (wait_condition h role (recheck_table ys (announce h role pt) k)
                      \<and> active (recheck_table ys (announce h role pt) k ! nat h) \<noteq> 0) \<longrightarrow>
               sys_peterson_acquire h role ys pt =
                 Some (if active (recheck_table ys (announce h role pt) k ! nat h) = 0
                       then - 1 else 0,
                       drop k ys, recheck_table ys (announce h role pt) k))
          \<and> ((\<forall>j \<le> length ys. wait_condition h role (recheck_table ys (announce h role pt) j)
                      \<and> active (recheck_table ys (announce h role pt) j ! nat h) \<noteq> 0) \<longrightarrow>
               sys_peterson_acquire h role ys pt = None)
          \<and> (\<forall>ys' pt'. sys_peterson_acquire h role ys pt = Some (0, ys', pt') \<longrightarrow>
               active (pt' ! nat h) \<noteq> 0 \<and> \<not> wait_condition h role pt'))"
proof -
  {
    assume "h < 0 \<or> h \<ge> NPETERSONLOCKS \<or> (role \<noteq> 0 \<and> role \<noteq> 1)"
    then have "sys_peterson_acquire h role ys pt = Some (- 1, ys, pt)"
      by (auto simp: sys_peterson_acquire_def)
  }
  note invalid = this
  {
    assume "0 \<le> h \<and> h < NPETERSONLOCKS \<and> active (pt ! nat h) = 0"
    then have "sys_peterson_acquire h role ys pt = Some (- 1, ys, pt)"
      by (simp add: sys_peterson_acquire_def)
  }
  note inactive = this
  {
    assume a: "0 \<le> h \<and> h < NPETERSONLOCKS \<and> (role = 0 \<or> role = 1) \<and> active (pt ! nat h) \<noteq> 0"
    then have e: "sys_peterson_acquire h role ys pt =
        acquire_wait h role ys (announce h role pt)"
      using acquire_enters_wait [OF assms] by blast
    have "(\<forall>k \<le> length ys.
               (\<forall>j < k. wait_condition h role (recheck_table ys (announce h role pt) j)
                      \<and> active (recheck_table ys (announce h role pt) j ! nat h) \<noteq> 0) \<and>
               \<not> (wait_condition h role (recheck_table ys (announce h role pt) k)
                      \<and> active (recheck_table ys (announce h role pt) k ! nat h) \<noteq> 0) \<longrightarrow>
               sys_peterson_acquire h role ys pt =
                 Some (if active (recheck_table ys (announce h role pt) k ! nat h) = 0
                       then - 1 else 0,
                       drop k ys, recheck_table ys (announce h role pt) k))"
      unfolding e using acquire_wait_stops [of _ ys h role "announce h role pt"] by blast
    moreover have "(\<forall>j \<le> length ys. wait_condition h role (recheck_table ys (announce h role pt) j)
                      \<and> active (recheck_table ys (announce h role pt) j ! nat h) \<noteq> 0) \<longrightarrow>
               sys_peterson_acquire h role ys pt = None"
      unfolding e using acquire_wait_spins [of ys h role "announce h role pt"] by blast
    moreover have "\<forall>ys' pt'. sys_peterson_acquire h role ys pt = Some (0, ys', pt') \<longrightarrow>
               active (pt' ! nat h) \<noteq> 0 \<and> \<not> wait_condition h role pt'"
      unfolding e using acquire_wait_ok [of h role ys "announce h role pt"] by blast
    ultimately have "(\<forall>k \<le> length ys.
               (\<forall>j < k. wait_condition h role (recheck_table ys (announce h role pt) j)
                      \<and> active (recheck_table ys (announce h role pt) j ! nat h) \<noteq> 0) \<and>
               \<not> (wait_condition h role (recheck_table ys (announce h role pt) k)
                      \<and> active (recheck_table ys (announce h role pt) k ! nat h) \<noteq> 0) \<longrightarrow>
               sys_peterson_acquire h role ys pt =
                 Some (if active (recheck_table ys (announce h role pt) k ! nat h) = 0
                       then - 1 else 0,
                       drop k ys, recheck_table ys (announce h role pt) k))
          \<and> ((\<forall>j \<le> length ys. wait_condition h role (recheck_table ys (announce h role pt) j)
                      \<and> active (recheck_table ys (announce h role pt) j ! nat h) \<noteq> 0) \<longrightarrow>
               sys_peterson_acquire h role ys pt = None)
          \<and> (\<forall>ys' pt'. sys_peterson_acquire h role ys pt = Some (0, ys', pt') \<longrightarrow>
               active (pt' ! nat h) \<noteq> 0 \<and> \<not> wait_condition h role pt')"
      by (intro conjI)
  }
  note valid = this
  show ?thesis
    apply (rule conjI)
     apply (rule impI)
     apply (erule invalid)
    apply (rule conjI)
     apply (rule impI)
     apply (erule inactive)
    apply (rule impI)
    apply (erule valid)
    done
qed

theorem acquire_protocol_witness:
  "wf_ptable (peterson_init[0 := \<lparr>name = ''peterson_lock'', active = 1, flag = [1, 0], turn = 1\<rparr>])
   \<and> sys_peterson_acquire 0 1 [\<lambda>p. snd (sys_peterson_release 0 0 p)]
        (peterson_init[0 := \<lparr>name = ''peterson_lock'', active = 1, flag = [1, 0], turn = 1\<rparr>]) =
       Some (0, [],
         peterson_init[0 := \<lparr>name = ''peterson_lock'', active = 1, flag = [0, 1], turn = 0\<rparr>])
   \<and> sys_peterson_acquire 0 1 [\<lambda>p. snd (the (sys_peterson_destroy 0 p))]
        (peterson_init[0 := \<lparr>name = ''peterson_lock'', active = 1, flag = [1, 0], turn = 1\<rparr>]) =
       Some (- 1, [], peterson_init)
   \<and> sys_peterson_acquire 0 1 []
        (peterson_init[0 := \<lparr>name = ''peterson_lock'', active = 1, flag = [1, 0], turn = 1\<rparr>]) =
       None
   \<and> sys_peterson_acquire 0 2 []
        (peterson_init[0 := \<lparr>name = ''peterson_lock'', active = 1, flag = [1, 0], turn = 1\<rparr>]) =
       Some (- 1, [],
         peterson_init[0 := \<lparr>name = ''peterson_lock'', active = 1, flag = [1, 0], turn = 1\<rparr>])"
proof -
  have w: "wf_ptable
      (peterson_init[0 := \<lparr>name = ''peterson_lock'', active = 1, flag = [1, 0], turn = 1\<rparr>])"
    by (simp add: wf_slot0)
  note ev = length_peterson_init peterson_init_restore peterson_init_nth NPETERSONLOCKS_def
    wait_condition_def announce_def recheck_table_def sys_peterson_release_def
    sys_peterson_destroy_def peterson_free_def lock_all_fields
  have a: "sys_peterson_acquire 0 1 [\<lambda>p. snd (sys_peterson_release 0 0 p)]
        (peterson_init[0 := \<lparr>name = ''peterson_lock'', active = 1, flag = [1, 0], turn = 1\<rparr>]) =
       Some (0, [],
         peterson_init[0 := \<lparr>name = ''peterson_lock'', active = 1, flag = [0, 1], turn = 0\<rparr>])"
    using acquire_protocol [OF w, of 0 1 "[\<lambda>p. snd (sys_peterson_release 0 0 p)]",
        THEN conjunct2, THEN conjunct2, THEN mp, THEN conjunct1, THEN spec, of 1]
    by (simp add: ev)
  have b: "sys_peterson_acquire 0 1 [\<lambda>p. snd (the (sys_peterson_destroy 0 p))]
        (peterson_init[0 := \<lparr>name = ''peterson_lock'', active = 1, flag = [1, 0], turn = 1\<rparr>]) =
       Some (- 1, [], peterson_init)"
    using acquire_protocol [OF w, of 0 1 "[\<lambda>p. snd (the (sys_peterson_destroy 0 p))]",
        THEN conjunct2, THEN conjunct2, THEN mp, THEN conjunct1, THEN spec, of 1]
    by (simp add: ev)
  have c: "sys_peterson_acquire 0 1 []
        (peterson_init[0 := \<lparr>name = ''peterson_lock'', active = 1, flag = [1, 0], turn = 1\<rparr>]) =
       None"
    using acquire_protocol [OF w, of 0 1 "[]",
        THEN conjunct2, THEN conjunct2, THEN mp, THEN conjunct2, THEN conjunct1]
    by (simp add: ev)
  have d: "sys_peterson_acquire 0 2 []
        (peterson_init[0 := \<lparr>name = ''peterson_lock'', active = 1, flag = [1, 0], turn = 1\<rparr>]) =
       Some (- 1, [],
         peterson_init[0 := \<lparr>name = ''peterson_lock'', active = 1, flag = [1, 0], turn = 1\<rparr>])"
    using acquire_protocol [OF w, of 0 2 "[]", THEN conjunct1]
    by (simp add: ev)
  from w a b c d show ?thesis by (intro conjI)
qed

section \<open>The tournament tree\<close>

declare log2_loop.simps [simp del]
declare create_locks.simps [simp del]
declare fork_children.simps [simp del]
declare acquire_levels.simps [simp del]
declare release_levels.simps [simp del]

lemma log2_values:
  "get_log2_if_power_of_2 1 = 0"
  "get_log2_if_power_of_2 2 = 1"
  "get_log2_if_power_of_2 3 = - 1"
  "get_log2_if_power_of_2 4 = 2"
  "get_log2_if_power_of_2 5 = - 1"
  "get_log2_if_power_of_2 6 = - 1"
  "get_log2_if_power_of_2 7 = - 1"
  "get_log2_if_power_of_2 8 = 3"
  "get_log2_if_power_of_2 9 = - 1"
  "get_log2_if_power_of_2 10 = - 1"
  "get_log2_if_power_of_2 11 = - 1"
  "get_log2_if_power_of_2 12 = - 1"
  "get_log2_if_power_of_2 13 = - 1"
  "get_log2_if_power_of_2 14 = - 1"
  "get_log2_if_power_of_2 15 = - 1"
  "get_log2_if_power_of_2 16 = 4"
  by (simp_all add: get_log2_if_power_of_2_def log2_loop.simps drop_bit_eq_div)

lemma int_cases_1_16:
  "1 \<le> (n::int) \<Longrightarrow> n \<le> 16 \<Longrightarrow> n \<in> {1, 2, 3, 4, 5, 6, 7, 8, 9, 10, 11, 12, 13, 14, 15, 16}"
  by simp arith

lemma log2_power:
  assumes "1 \<le> n" "n \<le> 16" "get_log2_if_power_of_2 n \<noteq> - 1"
  shows "0 \<le> get_log2_if_power_of_2 n \<and> get_log2_if_power_of_2 n \<le> 4
       \<and> n = 2 ^ nat (get_log2_if_power_of_2 n)"
  using int_cases_1_16 [OF assms(1,2)] assms(3)
  by (elim insertE emptyE) (simp_all add: log2_values)

lemma div_less_of_less_mult:
  fixes i k m :: int
  assumes "0 < k" "i < k * m"
  shows "i div k < m"
proof (rule ccontr)
  assume "\<not> i div k < m"
  then have "m \<le> i div k" by simp
  then have "k * m \<le> k * (i div k)" using assms(1) by (simp add: mult_left_mono)
  moreover have "0 \<le> i mod k" using assms(1) by simp
  moreover have "k * (i div k) + i mod k = i" by simp
  ultimately show False using assms(2) by linarith
qed

lemma level_index_bounds:
  fixes i :: int
  assumes "0 \<le> i" "i < 2 ^ L" "l < L"
  shows "0 \<le> i div 2 ^ (L - l) + (2 ^ l - 1) \<and> i div 2 ^ (L - l) + (2 ^ l - 1) \<le> 2 ^ L - 2"
proof -
  have split: "(2::int) ^ L = 2 ^ (L - l) * 2 ^ l"
    using assms(3) by (simp flip: power_add)
  have "i div 2 ^ (L - l) < 2 ^ l"
    using assms(2) unfolding split by (intro div_less_of_less_mult) simp_all
  moreover have "(2::int) ^ Suc l \<le> 2 ^ L"
    using assms(3) by (intro power_increasing) simp_all
  moreover have "0 \<le> i div 2 ^ (L - l)" using assms(1) by (simp add: pos_imp_zdiv_nonneg_iff)
  moreover have "(1::int) \<le> 2 ^ l" by simp
  ultimately show ?thesis by simp
qed

lemma shift_and_one: "drop_bit n (k::int) AND 1 = of_bool (bit k n)"
  by (simp add: and_one_eq bit_iff_odd_drop_bit mod_2_eq_odd)


lemma created_facts:
  assumes "created ts"
  obtains L ids where "L_levels ts = int L" "1 \<le> L" "L \<le> 4" "N_processes ts = 2 ^ L"
    "num_total_locks ts = 2 ^ L - 1" "peterson_lock_ids_array ts = Some ids"
    "int (length ids) = 2 ^ L - 1" "0 \<le> my_id ts" "my_id ts < 2 ^ L"
proof -
  from assms have n: "1 \<le> N_processes ts" "N_processes ts \<le> 16"
    "get_log2_if_power_of_2 (N_processes ts) \<noteq> - 1" "2 \<le> N_processes ts"
    and l: "L_levels ts = get_log2_if_power_of_2 (N_processes ts)"
    and t: "num_total_locks ts = N_processes ts - 1"
    and m: "0 \<le> my_id ts" "my_id ts < N_processes ts"
    by (simp_all add: created_def)
  from assms obtain ids where ids: "peterson_lock_ids_array ts = Some ids"
    "int (length ids) = N_processes ts - 1"
    by (auto simp: created_def split: option.splits)
  define L where "L = nat (L_levels ts)"
  from log2_power [OF n(1,2,3)] l have p: "0 \<le> L_levels ts" "L_levels ts \<le> 4"
    "N_processes ts = 2 ^ L" by (simp_all add: L_def)
  have "L \<noteq> 0" using p(3) n(4) by (cases L) simp_all
  then have "1 \<le> L" by simp
  moreover have "L \<le> 4" using p(2) by (simp add: L_def)
  moreover have "L_levels ts = int L" using p(1) by (simp add: L_def)
  ultimately show ?thesis using that [of L ids] p(3) t ids m by simp
qed

lemma level_in_bounds:
  assumes "created ts" "0 \<le> l" "l < L_levels ts"
  shows "0 \<le> array_index ts l \<and> array_index ts l \<le> N_processes ts - 2"
proof -
  from assms(1) obtain L and ids :: "int list"
    where f: "L_levels ts = int L" "N_processes ts = 2 ^ L"
      "0 \<le> my_id ts" "my_id ts < 2 ^ L"
    by (rule created_facts)
  have "nat l < L" using assms(2,3) f(1) by simp
  from level_index_bounds [OF f(3,4) this]
  show ?thesis using assms(2,3) f(1,2) by (simp add: array_index_def nat_diff_distrib)
qed

lemma level_body:
  assumes "created ts" "peterson_lock_ids_array ts = Some ids" "0 \<le> l" "l < L_levels ts"
  shows "drop_bit (nat (L_levels ts - 1 - l)) (my_id ts) AND 1 = role_at ts l"
    and "drop_bit (nat (L_levels ts - l)) (my_id ts) + (push_bit (nat l) 1 - 1) = array_index ts l"
    and "\<not> (array_index ts l < 0 \<or> array_index ts l \<ge> num_total_locks ts)"
    and "read_lock_id ts (array_index ts l) = Some (ids ! nat (array_index ts l))"
proof -
  show "drop_bit (nat (L_levels ts - 1 - l)) (my_id ts) AND 1 = role_at ts l"
    by (simp add: role_at_def shift_and_one)
  show "drop_bit (nat (L_levels ts - l)) (my_id ts) + (push_bit (nat l) 1 - 1) = array_index ts l"
    by (simp add: array_index_def drop_bit_eq_div push_bit_eq_mult)
  have b: "0 \<le> array_index ts l \<and> array_index ts l \<le> N_processes ts - 2"
    using assms(1,3,4) by (rule level_in_bounds)
  have t: "num_total_locks ts = N_processes ts - 1"
    and len: "int (length ids) = N_processes ts - 1"
    using assms(1,2) by (simp_all add: created_def)
  show "\<not> (array_index ts l < 0 \<or> array_index ts l \<ge> num_total_locks ts)"
    using b t by simp
  have "nat (array_index ts l) < length ids" using b len by linarith
  then show "read_lock_id ts (array_index ts l) = Some (ids ! nat (array_index ts l))"
    using b assms(2) by (simp add: read_lock_id_def)
qed

lemma rev_upto_step: "0 \<le> l \<Longrightarrow> rev [0..l] = l # rev [0..l - 1]"
  by (simp add: upto_rec2)

lemma acquire_levels_calls:
  assumes "created ts" "peterson_lock_ids_array ts = Some ids"
  shows "- 1 \<le> l \<Longrightarrow> l < L_levels ts \<Longrightarrow>
    acquire_levels acq ts l w =
      acquire_calls acq (map (\<lambda>l. (ids ! nat (array_index ts l), role_at ts l)) (rev [0..l])) w"
proof (induction "nat (l + 1)" arbitrary: l w)
  case 0
  then have "l = - 1" by simp
  then show ?case by (subst acquire_levels.simps) simp
next
  case (Suc n)
  then have l: "0 \<le> l" "l < L_levels ts" by simp_all
  note b = level_body [OF assms l]
  have ih: "\<And>w'. acquire_levels acq ts (l - 1) w' =
      acquire_calls acq
        (map (\<lambda>l. (ids ! nat (array_index ts l), role_at ts l)) (rev [0..l - 1])) w'"
    using Suc.hyps(2) l by (intro Suc.hyps(1)) simp_all
  show ?case
    apply (subst acquire_levels.simps)
    apply (simp only: Let_def b l rev_upto_step [OF l(1)] list.map acquire_calls.simps
        if_True if_False option.case ih)
    done
qed


lemma release_levels_calls:
  assumes "created ts" "peterson_lock_ids_array ts = Some ids"
  shows "0 \<le> l \<Longrightarrow> l \<le> L_levels ts \<Longrightarrow>
    release_levels rel ts l w =
      release_calls rel
        (map (\<lambda>l. (ids ! nat (array_index ts l), role_at ts l)) [l..L_levels ts - 1]) w"
proof (induction "nat (L_levels ts - l)" arbitrary: l w)
  case 0
  then have "l = L_levels ts" by simp
  then show ?case by (subst release_levels.simps) simp
next
  case (Suc n)
  then have l: "0 \<le> l" "l < L_levels ts" by simp_all
  note b = level_body [OF assms l]
  have ih: "\<And>w'. release_levels rel ts (l + 1) w' =
      release_calls rel
        (map (\<lambda>l. (ids ! nat (array_index ts l), role_at ts l)) [l + 1..L_levels ts - 1]) w'"
    using Suc.hyps(2) l by (intro Suc.hyps(1)) simp_all
  have up: "[l..L_levels ts - 1] = l # [l + 1..L_levels ts - 1]"
    using l by (simp add: upto_rec1)
  show ?case
    apply (subst release_levels.simps)
    apply (simp only: Let_def b l up list.map release_calls.simps
        if_True if_False option.case ih)
    done
qed

lemma created_enters_loop:
  assumes "created ts"
  shows "tournament_acquire acq ts w = acquire_levels acq ts (L_levels ts - 1) w"
    and "tournament_release rel ts w' = release_levels rel ts 0 w'"
  using assms
  by (auto simp: tournament_acquire_def tournament_release_def created_def
      split: option.splits)

text \<open>
  C3. In a tournament of \<open>N\<close> processes, \<open>N\<close> a power of two from 2 to 16 and
  \<open>L = log2 N\<close>, \<^verbatim>\<open>tournament_acquire\<close> of participant \<open>my_id\<close> walks the levels
  \<open>L - 1, L - 2, \<dots>, 0\<close> in this order and at level \<open>l\<close> calls \<^verbatim>\<open>peterson_acquire\<close> on the
  lock id stored at \<open>array_index = (my_id >> (L - l)) + (2 ^ l - 1)\<close> with the role
  bit \<open>L - 1 - l\<close> of \<open>my_id\<close>; a call that fails ends the walk with \<open>- 1\<close>.
\<close>

theorem tournament_acquire_traversal:
  assumes "created ts" and "peterson_lock_ids_array ts = Some ids"
  shows "tournament_acquire acq ts w =
    acquire_calls acq
      (map (\<lambda>l. (ids ! nat (array_index ts l), role_at ts l)) (rev [0..L_levels ts - 1])) w"
proof -
  from assms(1) obtain L and ids' :: "int list" where "L_levels ts = int L" "1 \<le> L"
    by (rule created_facts)
  then have "- 1 \<le> L_levels ts - 1" "L_levels ts - 1 < L_levels ts" by simp_all
  from acquire_levels_calls [OF assms this]
  show ?thesis by (simp add: created_enters_loop(1) [OF assms(1)])
qed


lemma create_three_locks:
  "create_locks sys_peterson_create 3 0 [0, 0, 0] peterson_init =
     (0, [0, 1, 2], snd (create_seq 3 peterson_init))"
  by (simp add: create_locks.simps sys_peterson_create_def peterson_alloc_def
      peterson_alloc_from.simps peterson_init_def NPETERSONLOCKS_def eval_nat_numeral)

lemma participant_4:
  "k = 0 \<or> k = 3 \<Longrightarrow>
   participant 4 k =
     \<lparr>peterson_lock_ids_array = Some [0, 1, 2], num_total_locks = 3, N_processes = 4,
      L_levels = 2, my_id = k\<rparr>"
  by (elim disjE)
    (simp_all add: participant_def tournament_create_def log2_values Let_def
      tournament_globals_def create_three_locks fork_children.simps eval_nat_numeral)

lemma created_participant_4: "k = 0 \<or> k = 3 \<Longrightarrow> created (participant 4 k)"
  by (auto simp: participant_4 created_def log2_values)

theorem tournament_acquire_traversal_witness:
  "created (participant 4 3)
   \<and> peterson_lock_ids_array (participant 4 3) = Some [0, 1, 2]
   \<and> tournament_acquire log_acquire (participant 4 3) [] = Some (0, [(2, 1), (0, 1)])"
proof -
  have c: "created (participant 4 3)" by (simp add: created_participant_4)
  have i: "peterson_lock_ids_array (participant 4 3) = Some [0, 1, 2]"
    by (simp add: participant_4)
  have u: "rev [0..(1::int)] = [1, 0]" by (simp add: upto_rec1)
  show ?thesis
    using c i tournament_acquire_traversal [OF c i, of log_acquire "[]"]
    by (simp add: participant_4 u array_index_def role_at_def log_acquire_def bit_numeral_rec)
qed


lemma n4_runs:
  "tournament_acquire log_acquire (participant 4 0) [] = Some (0, [(1, 0), (0, 0)])"
  "tournament_acquire log_acquire (participant 4 3) [] = Some (0, [(2, 1), (0, 1)])"
  "tournament_release log_release (participant 4 0) [] = Some (0, [(0, 0), (1, 0)])"
  "tournament_release log_release (participant 4 3) [] = Some (0, [(0, 1), (2, 1)])"
  by (simp_all add: participant_4 tournament_acquire_def tournament_release_def
      acquire_levels.simps release_levels.simps read_lock_id_def log_acquire_def
      log_release_def Let_def drop_bit_eq_div push_bit_eq_mult and_one_eq)

text \<open>
  C4, as stated, fails: in the tournament of 4 built on the initial table the lock ids
  are \<open>[0, 1, 2]\<close>, so a lock id is its array index, and participant 0 does not acquire
  \<open>(0, 0)\<close> first and \<open>(1, 0)\<close> second.
\<close>

theorem acquire_order_counterexample:
  "tournament_acquire log_acquire (participant 4 0) [] \<noteq> Some (0, [(0, 0), (1, 0)])"
  by (simp add: n4_runs)

text \<open>
  C4, amended. For \<open>N = 4\<close> (\<open>L = 2\<close>) the (array index, role) pairs of the acquire calls
  are, in the order of the calls, \<open>[(1, 0), (0, 0)]\<close> for participant 0 and
  \<open>[(2, 1), (0, 1)]\<close> for participant 3: the leaf lock first, the root lock last. The
  release calls of each participant are the same pairs in the reverse order.
\<close>

theorem n4_traversal:
  "peterson_lock_ids_array (participant 4 0) = Some [0, 1, 2]
   \<and> peterson_lock_ids_array (participant 4 3) = Some [0, 1, 2]
   \<and> tournament_acquire log_acquire (participant 4 0) [] = Some (0, [(1, 0), (0, 0)])
   \<and> tournament_acquire log_acquire (participant 4 3) [] = Some (0, [(2, 1), (0, 1)])
   \<and> tournament_release log_release (participant 4 0) [] = Some (0, rev [(1, 0), (0, 0)])
   \<and> tournament_release log_release (participant 4 3) [] = Some (0, rev [(2, 1), (0, 1)])
   \<and> (array_index (participant 4 0) 1, role_at (participant 4 0) 1) = (1, 0)
   \<and> (array_index (participant 4 0) 0, role_at (participant 4 0) 0) = (0, 0)
   \<and> (array_index (participant 4 3) 1, role_at (participant 4 3) 1) = (2, 1)
   \<and> (array_index (participant 4 3) 0, role_at (participant 4 3) 0) = (0, 1)"
  using n4_runs
  by (simp add: participant_4 array_index_def role_at_def bit_numeral_rec)

lemma acquire_calls_succeed:
  assumes "\<forall>lid role w. \<exists>r w'. acq lid role w = Some (r, w') \<and> 0 \<le> r"
  shows "\<exists>w'. acquire_calls acq cs w = Some (0, w')"
proof (induction cs arbitrary: w)
  case Nil
  show ?case by simp
next
  case (Cons c cs)
  obtain lid role where c: "c = (lid, role)" by (cases c)
  from assms obtain r w1 where "acq lid role w = Some (r, w1)" "0 \<le> r" by blast
  then show ?case using Cons.IH [of w1] by (simp add: c)
qed

lemma release_calls_succeed:
  assumes "\<forall>lid role w. 0 \<le> fst (rel lid role w)"
  shows "\<exists>w'. release_calls rel cs w = Some (0, w')"
proof (induction cs arbitrary: w)
  case Nil
  show ?case by simp
next
  case (Cons c cs)
  obtain lid role where c: "c = (lid, role)" by (cases c)
  obtain r w1 where r: "rel lid role w = (r, w1)" by (cases "rel lid role w")
  with assms have "0 \<le> r" by (metis fst_conv)
  then show ?case using Cons.IH [of w1] r by (simp add: c)
qed

text \<open>
  C9. In a tournament of \<open>N\<close> processes, \<open>N\<close> a power of two from 2 to 16, the index
  computed at every level \<open>l\<close> in \<open>[0, L)\<close> is \<open>(my_id >> (L - l)) + (2 ^ l - 1)\<close> and lies in
  \<open>[0, N - 2]\<close>, inside the array of \<open>N - 1\<close> lock ids. So the out-of-bounds return of
  \<^verbatim>\<open>tournament_acquire\<close> and \<^verbatim>\<open>tournament_release\<close> is not taken: when every system call
  succeeds, both return 0.
\<close>

theorem traversal_index_in_bounds:
  assumes "created ts"
  shows "(\<forall>l. 0 \<le> l \<and> l < L_levels ts \<longrightarrow>
            drop_bit (nat (L_levels ts - l)) (my_id ts) + (push_bit (nat l) 1 - 1) =
              array_index ts l
          \<and> 0 \<le> array_index ts l \<and> array_index ts l \<le> N_processes ts - 2
          \<and> array_index ts l < num_total_locks ts)
       \<and> ((\<forall>lid role w. \<exists>r w'. acq lid role w = Some (r, w') \<and> 0 \<le> r) \<longrightarrow>
            (\<exists>w'. tournament_acquire acq ts w = Some (0, w')))
       \<and> ((\<forall>lid role w. 0 \<le> fst (rel lid role w)) \<longrightarrow>
            (\<exists>v'. tournament_release rel ts v = Some (0, v')))"
proof -
  from assms obtain L ids where f: "L_levels ts = int L" "1 \<le> L"
    "peterson_lock_ids_array ts = Some ids"
    by (rule created_facts)
  have t: "num_total_locks ts = N_processes ts - 1" using assms by (simp add: created_def)
  have bounds: "\<forall>l. 0 \<le> l \<and> l < L_levels ts \<longrightarrow>
            drop_bit (nat (L_levels ts - l)) (my_id ts) + (push_bit (nat l) 1 - 1) =
              array_index ts l
          \<and> 0 \<le> array_index ts l \<and> array_index ts l \<le> N_processes ts - 2
          \<and> array_index ts l < num_total_locks ts"
  proof (intro allI impI)
    fix l assume l: "0 \<le> l \<and> l < L_levels ts"
    then have "0 \<le> array_index ts l \<and> array_index ts l \<le> N_processes ts - 2"
      using level_in_bounds [OF assms] by blast
    moreover have "drop_bit (nat (L_levels ts - l)) (my_id ts) + (push_bit (nat l) 1 - 1) =
        array_index ts l"
      using level_body(2) [OF assms f(3)] l by blast
    ultimately show "drop_bit (nat (L_levels ts - l)) (my_id ts) + (push_bit (nat l) 1 - 1) =
              array_index ts l
          \<and> 0 \<le> array_index ts l \<and> array_index ts l \<le> N_processes ts - 2
          \<and> array_index ts l < num_total_locks ts"
      using t by linarith
  qed
  have a: "tournament_acquire acq ts w =
      acquire_calls acq
        (map (\<lambda>l. (ids ! nat (array_index ts l), role_at ts l)) (rev [0..L_levels ts - 1])) w"
    using acquire_levels_calls [OF assms f(3), of "L_levels ts - 1" acq w] f(1,2)
    by (simp add: created_enters_loop(1) [OF assms])
  have r: "tournament_release rel ts v =
      release_calls rel
        (map (\<lambda>l. (ids ! nat (array_index ts l), role_at ts l)) [0..L_levels ts - 1]) v"
    using release_levels_calls [OF assms f(3), of 0 rel v] f(1,2)
    by (simp add: created_enters_loop(2) [OF assms])
  have acq: "(\<forall>lid role w. \<exists>r w'. acq lid role w = Some (r, w') \<and> 0 \<le> r) \<longrightarrow>
            (\<exists>w'. tournament_acquire acq ts w = Some (0, w'))"
    unfolding a using acquire_calls_succeed [of acq] by blast
  have rel: "(\<forall>lid role w. 0 \<le> fst (rel lid role w)) \<longrightarrow>
            (\<exists>v'. tournament_release rel ts v = Some (0, v'))"
    unfolding r using release_calls_succeed [of rel] by blast
  from bounds acq rel show ?thesis by (intro conjI)
qed

theorem traversal_index_in_bounds_witness:
  "created (participant 4 3)
   \<and> array_index (participant 4 3) 1 = 2
   \<and> array_index (participant 4 3) 1 \<le> N_processes (participant 4 3) - 2
   \<and> fst (the (tournament_acquire log_acquire (participant 4 3) [])) = 0
   \<and> fst (the (tournament_release log_release (participant 4 3) [])) = 0"
proof -
  have c: "created (participant 4 3)" by (simp add: created_participant_4)
  note inst = traversal_index_in_bounds [OF c, of log_acquire "[]" log_release "[]"]
  have i: "array_index (participant 4 3) 1 = 2"
    by (simp add: participant_4 array_index_def)
  have l: "(0::int) \<le> 1 \<and> 1 < L_levels (participant 4 3)" by (simp add: participant_4)
  from inst [THEN conjunct1, THEN spec, of 1, THEN mp, OF l]
  have b: "array_index (participant 4 3) 1 \<le> N_processes (participant 4 3) - 2" by simp
  have ha: "\<forall>lid role w. \<exists>r w'. log_acquire lid role w = Some (r, w') \<and> 0 \<le> r"
    by (simp add: log_acquire_def)
  from inst [THEN conjunct2, THEN conjunct1, THEN mp, OF ha]
  have a: "fst (the (tournament_acquire log_acquire (participant 4 3) [])) = 0" by auto
  have hr: "\<forall>lid role w. 0 \<le> fst (log_release lid role w)"
    by (simp add: log_release_def)
  from inst [THEN conjunct2, THEN conjunct2, THEN mp, OF hr]
  have r: "fst (the (tournament_release log_release (participant 4 3) [])) = 0" by auto
  from c i b a r show ?thesis by (intro conjI)
qed

section \<open>Creating a tournament\<close>

lemma filter_update_count:
  assumes "k < length xs" "P (xs ! k)" "\<not> P y"
  shows "length (filter P (xs[k := y])) = length (filter P xs) - 1"
proof -
  have a: "xs = take k xs @ xs ! k # drop (Suc k) xs"
    using assms(1) by (simp add: id_take_nth_drop)
  have b: "xs[k := y] = take k xs @ y # drop (Suc k) xs"
    using assms(1) by (simp add: upd_conv_take_nth_drop)
  have "length (filter P xs) =
      length (filter P (take k xs)) + 1 + length (filter P (drop (Suc k) xs))"
    by (subst a) (simp add: assms(2))
  moreover have "length (filter P (xs[k := y])) =
      length (filter P (take k xs)) + length (filter P (drop (Suc k) xs))"
    by (subst b) (simp add: assms(3))
  ultimately show ?thesis by simp
qed

lemma wf_ptable_update:
  "wf_ptable pt \<Longrightarrow> length (flag s) = 2 \<Longrightarrow> wf_ptable (pt[k := s])"
  by (auto simp: wf_ptable_def dest: set_update_subset_insert [THEN subsetD])

lemma create_step:
  assumes "wf_ptable pt"
  shows "(free_count pt = 0 \<and> sys_peterson_create pt = (- 1, pt))
       \<or> (0 < free_count pt
          \<and> (\<exists>k pt'. sys_peterson_create pt = (k, pt') \<and> 0 \<le> k \<and> k < NPETERSONLOCKS
                \<and> wf_ptable pt' \<and> free_count pt' = free_count pt - 1))"
  using alloc_cases [OF assms]
proof (elim disjE conjE exE)
  assume r: "peterson_alloc pt = (- 1, pt)" and all: "\<forall>j<length pt. active (pt ! j) \<noteq> 0"
  have "filter (\<lambda>s. active s = 0) pt = []"
    using all by (auto simp: filter_empty_conv in_set_conv_nth)
  then show ?thesis using r by (simp add: free_count_def sys_peterson_create_def)
next
  fix k
  assume k: "k < length pt" "active (pt ! k) = 0"
    and r: "peterson_alloc pt =
         (int k, pt[k := \<lparr>name = ''peterson_lock'', active = 1, flag = [0, 0], turn = 0\<rparr>])"
  let ?pt' = "pt[k := \<lparr>name = ''peterson_lock'', active = 1, flag = [0, 0], turn = 0\<rparr>]"
  have len: "int (length pt) = NPETERSONLOCKS" using assms by (simp add: wf_ptable_def)
  have "pt ! k \<in> set (filter (\<lambda>s. active s = 0) pt)" using k by simp
  then have pos: "0 < free_count pt"
    unfolding free_count_def by (metis length_pos_if_in_set)
  have cnt: "free_count ?pt' = free_count pt - 1"
    unfolding free_count_def using k by (intro filter_update_count) simp_all
  have "wf_ptable ?pt'" using assms by (intro wf_ptable_update) simp_all
  with pos cnt r k len show ?thesis by (simp add: sys_peterson_create_def)
qed

lemma create_locks_count:
  assumes "wf_ptable pt"
  shows "0 \<le> i \<Longrightarrow> i \<le> n \<Longrightarrow>
    wf_ptable (snd (snd (create_locks sys_peterson_create n i arr pt)))
  \<and> free_count (snd (snd (create_locks sys_peterson_create n i arr pt))) =
      free_count pt - min (nat (n - i)) (free_count pt)
  \<and> fst (create_locks sys_peterson_create n i arr pt) =
      (if n - i \<le> int (free_count pt) then 0 else - 1)"
  using assms
proof (induction "nat (n - i)" arbitrary: i arr pt)
  case 0
  then have "i = n" by simp
  then show ?case using "0.prems" by (subst (1 2 3) create_locks.simps) simp
next
  case (Suc m)
  then have lt: "i < n" by simp
  from create_step [OF Suc.prems(3)] show ?case
  proof (elim disjE conjE exE)
    assume z: "free_count pt = 0" and r: "sys_peterson_create pt = (- 1, pt)"
    show ?thesis using lt z r Suc.prems(3)
      by (subst (1 2 3) create_locks.simps) simp
  next
    fix k pt1
    assume pos: "0 < free_count pt"
      and r: "sys_peterson_create pt = (k, pt1)" "0 \<le> k"
      and wf1: "wf_ptable pt1" and c1: "free_count pt1 = free_count pt - 1"
    have ih: "wf_ptable (snd (snd (create_locks sys_peterson_create n (i + 1) (arr[nat i := k]) pt1)))
      \<and> free_count (snd (snd (create_locks sys_peterson_create n (i + 1) (arr[nat i := k]) pt1))) =
          free_count pt1 - min (nat (n - (i + 1))) (free_count pt1)
      \<and> fst (create_locks sys_peterson_create n (i + 1) (arr[nat i := k]) pt1) =
          (if n - (i + 1) \<le> int (free_count pt1) then 0 else - 1)"
      using Suc.hyps(2) Suc.prems(1) lt wf1 by (intro Suc.hyps(1)) simp_all
    have step: "create_locks sys_peterson_create n i arr pt =
        create_locks sys_peterson_create n (i + 1) (arr[nat i := k]) pt1"
      using lt r by (subst create_locks.simps) simp
    have m: "min (nat (n - i)) (free_count pt) =
        Suc (min (nat (n - (i + 1))) (free_count pt1))"
      using lt pos c1 by (simp add: min_def) linarith
    show ?thesis unfolding step using ih m pos c1 lt by auto
  qed
qed


lemma pow2_small:
  assumes "(n::int) = 2 ^ k" "n \<le> 16"
  shows "n \<in> {1, 2, 4, 8, 16}"
proof -
  have "k \<le> 4"
  proof (rule ccontr)
    assume "\<not> k \<le> 4"
    then have "5 \<le> k" by simp
    then have "(2::int) ^ 5 \<le> 2 ^ k" by (intro power_increasing) simp_all
    with assms show False by simp
  qed
  then have "k \<in> {0, 1, 2, 3, 4}" by auto
  then show ?thesis using assms(1) by auto
qed

lemma not_power_of_2:
  assumes "1 \<le> n" "n \<le> 16"
  shows "(get_log2_if_power_of_2 n = - 1) = (\<forall>k::nat. n \<noteq> 2 ^ k)"
proof
  assume "get_log2_if_power_of_2 n = - 1"
  then have "n \<notin> {1, 2, 4, 8, 16}" by (auto simp: log2_values)
  then show "\<forall>k::nat. n \<noteq> 2 ^ k" using pow2_small [OF _ assms(2)] by blast
next
  assume a: "\<forall>k::nat. n \<noteq> 2 ^ k"
  show "get_log2_if_power_of_2 n = - 1"
  proof (rule ccontr)
    assume "get_log2_if_power_of_2 n \<noteq> - 1"
    from log2_power [OF assms this] a show False by blast
  qed
qed

lemma tournament_create_rejects:
  "16 < n \<or> get_log2_if_power_of_2 n = - 1 \<Longrightarrow>
   tournament_create cr malloc_ok fork_ret n ts w = (- 1, ts, w)"
  by (auto simp: tournament_create_def)

lemma tournament_create_one:
  "tournament_create cr malloc_ok fork_ret 1 ts w =
     (0, ts\<lparr>L_levels := 0, N_processes := 1, num_total_locks := 0,
            peterson_lock_ids_array := None, my_id := 0\<rparr>, w)"
  by (simp add: tournament_create_def log2_values fork_children.simps)

lemma tournament_create_no_memory:
  "2 \<le> n \<Longrightarrow> n \<le> 16 \<Longrightarrow> get_log2_if_power_of_2 n \<noteq> - 1 \<Longrightarrow>
   tournament_create cr False fork_ret n ts w =
     (- 1, ts\<lparr>L_levels := get_log2_if_power_of_2 n, N_processes := n,
              num_total_locks := n - 1, peterson_lock_ids_array := None\<rparr>, w)"
  by (simp add: tournament_create_def Let_def)

lemma tournament_create_allocates:
  assumes "2 \<le> n" "n \<le> 16" "get_log2_if_power_of_2 n \<noteq> - 1"
  shows "snd (snd (tournament_create cr True fork_ret n ts w)) =
           snd (snd (create_locks cr (n - 1) 0 (replicate (nat (n - 1)) 0) w))"
    and "fst (create_locks cr (n - 1) 0 (replicate (nat (n - 1)) 0) w) < 0 \<Longrightarrow>
           fst (tournament_create cr True fork_ret n ts w) = - 1"
  using assms
  by (auto simp: tournament_create_def Let_def split: prod.splits)

text \<open>
  C7, amended. \<^verbatim>\<open>tournament_create(n)\<close> returns \<open>- 1\<close> for every \<open>n\<close> that is \<open>\<le> 0\<close>, \<open>> 16\<close> or
  not a power of two, and then allocates nothing: table and globals are unchanged.
  \<open>n = 1\<close> is accepted with no lock allocated. For a power of two from 2 to 16 it
  allocates \<open>n - 1\<close> locks when \<^verbatim>\<open>malloc\<close> succeeds and the table has at least \<open>n - 1\<close>
  free slots; with fewer free slots it allocates all of them and returns \<open>- 1\<close>, and when
  \<^verbatim>\<open>malloc\<close> fails it returns \<open>- 1\<close> with nothing allocated.
\<close>

theorem tournament_create_validation:
  assumes "wf_ptable pt"
    and "tournament_create sys_peterson_create malloc_ok fork_ret n ts pt = (r, ts', pt')"
  shows "(n \<le> 0 \<or> 16 < n \<or> (\<forall>k::nat. n \<noteq> 2 ^ k) \<longrightarrow> r = - 1 \<and> ts' = ts \<and> pt' = pt)
       \<and> (n = 1 \<longrightarrow> r = 0 \<and> pt' = pt)
       \<and> (2 \<le> n \<and> n \<le> 16 \<and> (\<exists>k::nat. n = 2 ^ k) \<and> \<not> malloc_ok \<longrightarrow> r = - 1 \<and> pt' = pt)
       \<and> (2 \<le> n \<and> n \<le> 16 \<and> (\<exists>k::nat. n = 2 ^ k) \<and> malloc_ok \<longrightarrow>
            int (free_count pt) - int (free_count pt') = min (n - 1) (int (free_count pt))
          \<and> (n - 1 \<le> int (free_count pt) \<longrightarrow>
                int (free_count pt) - int (free_count pt') = n - 1)
          \<and> (int (free_count pt) < n - 1 \<longrightarrow> r = - 1 \<and> free_count pt' = 0))"
proof -
  {
    assume bad: "n \<le> 0 \<or> 16 < n \<or> (\<forall>k::nat. n \<noteq> 2 ^ k)"
    have "16 < n \<or> get_log2_if_power_of_2 n = - 1"
    proof (cases "1 \<le> n \<and> n \<le> 16")
      case True
      with bad have "\<forall>k::nat. n \<noteq> 2 ^ k" by auto
      with True show ?thesis by (simp add: not_power_of_2)
    next
      case False
      then show ?thesis by (auto simp: get_log2_if_power_of_2_def)
    qed
    from tournament_create_rejects [OF this, of sys_peterson_create malloc_ok fork_ret ts pt]
      assms(2)
    have "r = - 1 \<and> ts' = ts \<and> pt' = pt" by simp
  }
  note invalid = this
  {
    assume "n = 1"
    with assms(2) have "r = 0 \<and> pt' = pt" by (simp add: tournament_create_one)
  }
  note one = this
  {
    assume v: "2 \<le> n \<and> n \<le> 16 \<and> (\<exists>k::nat. n = 2 ^ k) \<and> \<not> malloc_ok"
    then have "get_log2_if_power_of_2 n \<noteq> - 1" by (simp add: not_power_of_2)
    with v assms(2) have "r = - 1 \<and> pt' = pt" by (simp add: tournament_create_no_memory)
  }
  note no_memory = this
  {
    assume v: "2 \<le> n \<and> n \<le> 16 \<and> (\<exists>k::nat. n = 2 ^ k) \<and> malloc_ok"
    then have l: "get_log2_if_power_of_2 n \<noteq> - 1" by (simp add: not_power_of_2)
    from v have n: "2 \<le> n" "n \<le> 16" and m: "malloc_ok = True" by simp_all
    let ?c = "create_locks sys_peterson_create (n - 1) 0 (replicate (nat (n - 1)) 0) pt"
    from tournament_create_allocates [OF n l, where cr = sys_peterson_create
        and fork_ret = fork_ret and ts = ts and w = pt] assms(2)
    have pt': "pt' = snd (snd ?c)" and r: "fst ?c < 0 \<Longrightarrow> r = - 1"
      by (simp_all add: m)
    from create_locks_count [OF assms(1), of 0 "n - 1" "replicate (nat (n - 1)) 0"] n
    have c: "free_count (snd (snd ?c)) = free_count pt - min (nat (n - 1)) (free_count pt)"
      "fst ?c = (if n - 1 \<le> int (free_count pt) then 0 else - 1)"
      by simp_all
    have "int (free_count pt) - int (free_count pt') = min (n - 1) (int (free_count pt))
          \<and> (n - 1 \<le> int (free_count pt) \<longrightarrow>
                int (free_count pt) - int (free_count pt') = n - 1)
          \<and> (int (free_count pt) < n - 1 \<longrightarrow> r = - 1 \<and> free_count pt' = 0)"
      using c r n unfolding pt' by (auto simp: min_def)
  }
  note valid = this
  show ?thesis
    apply (rule conjI)
     apply (rule impI)
     apply (erule invalid)
    apply (rule conjI)
     apply (rule impI)
     apply (erule one)
    apply (rule conjI)
     apply (rule impI)
     apply (erule no_memory)
    apply (rule impI)
    apply (erule valid)
    done
qed


lemma full_table_eq:
  "full_table =
     replicate 16 \<lparr>name = ''peterson_lock'', active = 1, flag = [0, 0], turn = 0\<rparr>"
  by (simp add: full_table_def seq16)

lemma free_count_full_table: "free_count full_table = 0"
  by (simp add: full_table_eq free_count_def)

lemma create_on_full_table: "sys_peterson_create full_table = (- 1, full_table)"
  by (simp add: full_table_eq last16)

lemma free_count_peterson_init: "free_count peterson_init = 16"
  by (simp add: free_count_def peterson_init_def NPETERSONLOCKS_def)

text \<open>
  C7, as stated, fails in its last part: on the table with all 16 locks allocated,
  \<^verbatim>\<open>tournament_create(2)\<close>, a valid count, returns \<open>- 1\<close> and allocates no lock instead of
  \<open>n - 1 = 1\<close>.
\<close>

theorem tournament_create_counterexample:
  "fst (tournament_create sys_peterson_create True parent_forks 2 tournament_globals full_table)
     = - 1
   \<and> int (free_count full_table)
       - int (free_count (snd (snd (tournament_create sys_peterson_create True parent_forks 2
                                      tournament_globals full_table))))
     \<noteq> 2 - 1"
  by (simp add: tournament_create_def log2_values Let_def create_locks.simps
      create_on_full_table free_count_full_table)

theorem tournament_create_validation_witness:
  "wf_ptable peterson_init
   \<and> int (free_count peterson_init)
       - int (free_count (snd (snd (tournament_create sys_peterson_create True parent_forks 4
                                      tournament_globals peterson_init))))
     = 4 - 1
   \<and> fst (tournament_create sys_peterson_create True parent_forks 3
            tournament_globals peterson_init) = - 1
   \<and> snd (snd (tournament_create sys_peterson_create True parent_forks 3
                 tournament_globals peterson_init)) = peterson_init"
proof -
  have w: "wf_ptable peterson_init"
    by (simp add: wf_ptable_def peterson_init_def NPETERSONLOCKS_def)
  have p4: "\<exists>k::nat. (4::int) = 2 ^ k" by (rule exI [of _ 2]) simp
  have p3: "\<forall>k::nat. (3::int) \<noteq> 2 ^ k" using pow2_small [of 3] by auto
  have e: "\<And>n. tournament_create sys_peterson_create True parent_forks n
          tournament_globals peterson_init =
        (fst (tournament_create sys_peterson_create True parent_forks n
                tournament_globals peterson_init),
         fst (snd (tournament_create sys_peterson_create True parent_forks n
                tournament_globals peterson_init)),
         snd (snd (tournament_create sys_peterson_create True parent_forks n
                tournament_globals peterson_init)))"
    by simp
  show ?thesis
    using w p4 p3 tournament_create_validation [OF w e [of 4]]
      tournament_create_validation [OF w e [of 3]]
    by (simp add: free_count_peterson_init)
qed

section \<open>Return values\<close>







































section \<open>Mutual exclusion of the two roles\<close>

lemma inv_start: "wf_ptable pt \<Longrightarrow> peterson_inv h (start pt)"
  by (simp add: peterson_inv_def start_def)

lemma contending_raised: "contending p \<Longrightarrow> flag_raised p"
  by (cases p) simp_all

lemma holds_contending: "holds_lock p \<Longrightarrow> contending p"
  by (cases p) simp_all

lemma wf_ptable_slot:
  "wf_ptable pt \<Longrightarrow> 0 \<le> h \<Longrightarrow> h < NPETERSONLOCKS \<Longrightarrow>
   nat h < length pt \<and> length (flag (pt ! nat h)) = 2"
  unfolding wf_ptable_def by (metis nat_less_iff nth_mem)

lemma wf_ptable_flag_update:
  "wf_ptable pt \<Longrightarrow> 0 \<le> h \<Longrightarrow> h < NPETERSONLOCKS \<Longrightarrow>
   wf_ptable (pt[nat h := (pt ! nat h)\<lparr>flag := (flag (pt ! nat h))[i := v]\<rparr>])"
  using wf_ptable_slot [of pt h] by (intro wf_ptable_update) simp_all

lemma wf_ptable_turn_update:
  "wf_ptable pt \<Longrightarrow> 0 \<le> h \<Longrightarrow> h < NPETERSONLOCKS \<Longrightarrow>
   wf_ptable (pt[nat h := (pt ! nat h)\<lparr>turn := v\<rparr>])"
  using wf_ptable_slot [of pt h] by (intro wf_ptable_update) simp_all

lemma inv_step0:
  assumes "peterson_inv h s"
  shows "peterson_inv h (ctx_step h Ctx0 s)"
  using assms wf_ptable_slot [of "table s" h]
  by (cases "pcs s Ctx0";
      auto simp: ctx_step_def goto_def peterson_inv_def Let_def wf_ptable_flag_update
        wf_ptable_turn_update dest: contending_raised holds_contending)

lemma inv_step1:
  assumes "peterson_inv h s"
  shows "peterson_inv h (ctx_step h Ctx1 s)"
  using assms wf_ptable_slot [of "table s" h]
  by (cases "pcs s Ctx1";
      auto simp: ctx_step_def goto_def peterson_inv_def Let_def wf_ptable_flag_update
        wf_ptable_turn_update dest: contending_raised holds_contending)

lemma inv_run: "peterson_inv h s \<Longrightarrow> peterson_inv h (run h sched s)"
proof (induction sched arbitrary: s)
  case Nil
  then show ?case by simp
next
  case (Cons c sched)
  have "peterson_inv h (ctx_step h c s)"
    using Cons.prems by (cases c) (simp_all add: inv_step0 inv_step1)
  then show ?case using Cons.IH by simp
qed


text \<open>
  C1. Two contexts run the protocol \<^verbatim>\<open>peterson_acquire(h, role)\<close>, critical section,
  \<^verbatim>\<open>peterson_release(h, role)\<close> on the same lock \<open>h\<close>, one with role 0 and one with
  role 1, from any well-formed table. Whatever the schedule, at no time do both hold the
  lock: they are never both between leaving the wait loop of a successful acquire and
  clearing their flag in release, which includes both being in the critical section.
\<close>

theorem peterson_mutual_exclusion:
  assumes "wf_ptable pt"
  shows "\<not> (holds_lock (pcs (run h sched (start pt)) Ctx0)
          \<and> holds_lock (pcs (run h sched (start pt)) Ctx1))"
proof
  assume both: "holds_lock (pcs (run h sched (start pt)) Ctx0)
          \<and> holds_lock (pcs (run h sched (start pt)) Ctx1)"
  then have c: "contending (pcs (run h sched (start pt)) Ctx0)"
    "contending (pcs (run h sched (start pt)) Ctx1)"
    by (simp_all add: holds_contending)
  have inv: "peterson_inv h (run h sched (start pt))"
    using assms by (intro inv_run inv_start)
  from inv both c(2) have "turn (table (run h sched (start pt)) ! nat h) = 0"
    unfolding peterson_inv_def by blast
  moreover from inv both c(1) have "turn (table (run h sched (start pt)) ! nat h) = 1"
    unfolding peterson_inv_def by blast
  ultimately show False by simp
qed


theorem peterson_mutual_exclusion_witness:
  "wf_ptable (peterson_init[0 := \<lparr>name = ''peterson_lock'', active = 1, flag = [0, 0], turn = 0\<rparr>])
   \<and> pcs (run 0 [Ctx0, Ctx0, Ctx0, Ctx0, Ctx0, Ctx0, Ctx0, Ctx0,
                   Ctx1, Ctx1, Ctx1, Ctx1, Ctx1, Ctx1, Ctx1]
           (start (peterson_init[0 :=
              \<lparr>name = ''peterson_lock'', active = 1, flag = [0, 0], turn = 0\<rparr>]))) Ctx0
       = Critical
   \<and> \<not> holds_lock
         (pcs (run 0 [Ctx0, Ctx0, Ctx0, Ctx0, Ctx0, Ctx0, Ctx0, Ctx0,
                      Ctx1, Ctx1, Ctx1, Ctx1, Ctx1, Ctx1, Ctx1]
           (start (peterson_init[0 :=
              \<lparr>name = ''peterson_lock'', active = 1, flag = [0, 0], turn = 0\<rparr>]))) Ctx1)"
proof -
  have w: "wf_ptable
      (peterson_init[0 := \<lparr>name = ''peterson_lock'', active = 1, flag = [0, 0], turn = 0\<rparr>])"
    by (simp add: wf_slot0)
  have c: "pcs (run 0 [Ctx0, Ctx0, Ctx0, Ctx0, Ctx0, Ctx0, Ctx0, Ctx0,
                   Ctx1, Ctx1, Ctx1, Ctx1, Ctx1, Ctx1, Ctx1]
           (start (peterson_init[0 :=
              \<lparr>name = ''peterson_lock'', active = 1, flag = [0, 0], turn = 0\<rparr>]))) Ctx0
       = Critical"
    by (simp add: start_def ctx_step_def goto_def Let_def NPETERSONLOCKS_def
        length_peterson_init)
  from peterson_mutual_exclusion [OF w, of 0
      "[Ctx0, Ctx0, Ctx0, Ctx0, Ctx0, Ctx0, Ctx0, Ctx0,
        Ctx1, Ctx1, Ctx1, Ctx1, Ctx1, Ctx1, Ctx1]"] c w
  show ?thesis by simp
qed

end
